theory Spec2Isabelle
  imports Main "HOL-Library.Finite_Map" "HOL-Library.Word"
begin

section \<open>go-deadlock: the data model of deadlock.go\<close>

text \<open>
  Goroutine ids are \<open>int64\<close> and stacks are \<open>[]uintptr\<close>; the program only stores,
  compares and prints them, so both are 64-bit words here. A lock handle is the
  \<open>interface{}\<close> pointer used as a map key: any type \<open>'l\<close> with equality.
\<close>

type_synonym gid = "64 word"
type_synonym stack = "64 word list"

record stackGID =
  stack :: stack
  gid :: gid

datatype 'l beforeAfter = BeforeAfter (before_of: 'l) (after_of: 'l)

record ss =
  before :: stack
  after :: stack

text \<open>
  \<open>lockOrder\<close>: the two Go maps are finite maps. The guard \<open>mu\<close> is not a field of
  the model; taking and releasing it are actions of the trace (below).
\<close>

record 'l lockOrder =
  cur :: "('l, stackGID) fmap"
  order :: "('l beforeAfter, ss) fmap"

definition newLockOrder :: "'l lockOrder" where
  "newLockOrder = \<lparr>cur = fmempty, order = fmempty\<rparr>"

text \<open>
  \<open>Opts.OnPotentialDeadlock\<close> is a \<open>func()\<close>: all the program can observe of it is
  whether it returns to its caller or ends the process (the default is \<open>os.Exit(2)\<close>).
\<close>

datatype callback = CbReturns | CbExits

record Opts =
  Disable :: bool
  DisableLockOrderDetection :: bool
  DeadlockTimeout :: int
  OnPotentialDeadlock :: callback
  MaxMapSize :: int
  PrintAllCurrentGoroutines :: bool

definition defaultOpts :: Opts where
  "defaultOpts = \<lparr>Disable = False, DisableLockOrderDetection = False,
     DeadlockTimeout = 30 * 1000000000, OnPotentialDeadlock = CbExits,
     MaxMapSize = 1024 * 64, PrintAllCurrentGoroutines = False\<rparr>"

text \<open>
  The Frame/Identity provider is outside deadlock.go: \<open>callers(skip)\<close> and
  \<open>goid.Get()\<close> are taken as parameters, the answers the provider gives to the
  calling goroutine.
\<close>

record provider =
  callers :: "nat \<Rightarrow> stack"
  goid_Get :: gid

subsection \<open>Observable actions\<close>

text \<open>The three underlying acquire functions handed to \<open>lock\<close>, and the three releases.\<close>

datatype acquire = Mutex_mu_Lock | RWMutex_mu_Lock | RWMutex_mu_RLock
datatype release = Mutex_mu_Unlock | RWMutex_mu_Unlock | RWMutex_mu_RUnlock

text \<open>The lines written with \<open>zap.L().Warn\<close>, one constructor per format string.\<close>

datatype 'l msg =
    Header
  | PreviousPlace
  | GoroutineLock gid 'l
  | TryingFor int
  | DoingNow gid
  | AllCurrentGoroutines
  | RecursiveLocking
  | CurrentGoroutineLock gid 'l
  | PreviousPlaceSame
  | InconsistentLocking
  | HappenedBefore
  | HappenedAfter
  | OtherHappenedBefore
  | OthersHolding

text \<open>
  Every call and every access to the global maps that a function of deadlock.go
  makes is one action; a function of the model returns the list of its actions in
  program order.
\<close>

datatype 'l action =
    Callers nat
  | GoidGet
  | LoMuLock
  | LoMuUnlock
  | OptsMuLock
  | OptsMuUnlock
  | Warn "'l msg"
  | PrintStack stack
  | Stacks
  | ExtractGID
  | CallOnPotentialDeadlock
  | Fatal
  | LockFn acquire
  | UnlockFn release
  | MakeChan
  | Go
  | CloseChan
  | RecvChan
  | NewTimer int
  | DeferStop
  | RecvTimer
  | TimerStop
  | CurRange
  | CurGet 'l
  | CurSet 'l
  | CurDelete 'l
  | OrderGet "'l beforeAfter"
  | OrderSet "'l beforeAfter"
  | OrderLen
  | OrderReset

text \<open>
  How a function of the model ends: it returns to its caller, or the process has
  ended inside it: in the callback, or in \<open>zap.L().Fatal\<close>, which never returns
  to its caller.
\<close>

datatype ctl = Returned | ExitedInCallback | ExitedInFatal

datatype 'l result = Result (state_of: "'l lockOrder") (trace_of: "'l action list") (ctl_of: ctl)

definition prefixed :: "'l action list \<Rightarrow> 'l result \<Rightarrow> 'l result" where
  "prefixed as r = Result (state_of r) (as @ trace_of r) (ctl_of r)"

section \<open>The lock-order graph\<close>

text \<open>
  A Go \<open>range\<close> over a map visits every key once, in an order the runtime chooses.
  The order is a parameter of the model: a list of keys. \<open>range_order ks m\<close> says
  that \<open>ks\<close> is such an order for the map \<open>m\<close>.
\<close>

definition range_order :: "'k list \<Rightarrow> ('k, 'v) fmap \<Rightarrow> bool" where
  "range_order ks m \<longleftrightarrow> distinct ks \<and> fset_of_list ks = fmdom m"

text \<open>
  \<open>lockOrder.other\<close> (lines 330-349, called with \<open>lo.mu\<close> held). Its first loop
  only finds out whether another lock is held; \<open>ks\<close> is the range order of its
  second loop, which prints one entry for each.
\<close>

fun other_entry :: "('l, stackGID) fmap \<Rightarrow> 'l \<Rightarrow> 'l \<Rightarrow> 'l action list" where
  "other_entry m ptr k =
     (case fmlookup m k of
        None \<Rightarrow> []
      | Some pp \<Rightarrow> if k = ptr then [] else [Warn (GoroutineLock (gid pp) k), PrintStack (stack pp)])"

definition other :: "'l list \<Rightarrow> 'l lockOrder \<Rightarrow> 'l \<Rightarrow> 'l action list" where
  "other ks l ptr =
     (if list_all (\<lambda>k. k = ptr \<or> fmlookup (cur l) k = None) ks then [CurRange]
      else [CurRange, Warn OthersHolding, CurRange] @ concat (map (other_entry (cur l) ptr) ks))"

text \<open>
  The end of every report: \<open>Opts.OnPotentialDeadlock()\<close> and then
  \<open>zap.L().Fatal("Forcing fatal...")\<close>, reached only when the callback returned.
\<close>

definition potentialDeadlock :: "Opts \<Rightarrow> 'l action list" where
  "potentialDeadlock opts =
     (case OnPotentialDeadlock opts of
        CbExits \<Rightarrow> [CallOnPotentialDeadlock]
      | CbReturns \<Rightarrow> [CallOnPotentialDeadlock, Fatal])"

definition exited :: "Opts \<Rightarrow> ctl" where
  "exited opts = (case OnPotentialDeadlock opts of CbExits \<Rightarrow> ExitedInCallback | CbReturns \<Rightarrow> ExitedInFatal)"

definition reported :: "Opts \<Rightarrow> 'l lockOrder \<Rightarrow> 'l action list \<Rightarrow> 'l result" where
  "reported opts l as = Result l (as @ potentialDeadlock opts) (exited opts)"

text \<open>Lines 278-285 and 295-306: the two reports of \<open>preLock\<close>.\<close>

definition recursiveReport :: "'l list \<Rightarrow> 'l lockOrder \<Rightarrow> stack \<Rightarrow> gid \<Rightarrow> 'l \<Rightarrow> stackGID \<Rightarrow> 'l action list" where
  "recursiveReport oks l stk g p bs =
     [OptsMuLock, Warn RecursiveLocking, Warn (CurrentGoroutineLock g p), PrintStack stk,
      Warn PreviousPlaceSame, PrintStack (stack bs)] @ other oks l p @ [OptsMuUnlock]"

definition inversionReport :: "'l list \<Rightarrow> 'l lockOrder \<Rightarrow> stack \<Rightarrow> 'l \<Rightarrow> stackGID \<Rightarrow> ss \<Rightarrow> 'l action list" where
  "inversionReport oks l stk p bs s =
     [OptsMuLock, Warn InconsistentLocking, Warn HappenedBefore, PrintStack (before s),
      Warn HappenedAfter, PrintStack (after s), Warn OtherHappenedBefore, PrintStack (stack bs),
      Warn HappenedAfter, PrintStack stk] @ other oks l p @ [OptsMuUnlock]"

text \<open>Lines 310-313: record the edge, then reset the table when its length equals \<open>MaxMapSize\<close>.\<close>

definition len :: "('k, 'v) fmap \<Rightarrow> int" where
  "len m = int (fcard (fmdom m))"

definition recordEdge :: "Opts \<Rightarrow> 'l \<Rightarrow> 'l \<Rightarrow> stackGID \<Rightarrow> stack \<Rightarrow> 'l lockOrder \<Rightarrow> 'l lockOrder" where
  "recordEdge opts b p bs stk l =
     (let l1 = l\<lparr>order := fmupd (BeforeAfter b p) \<lparr>before = stack bs, after = stk\<rparr> (order l)\<rparr>
      in if len (order l1) = MaxMapSize opts then l1\<lparr>order := fmempty\<rparr> else l1)"

definition recordEdgeTrace :: "Opts \<Rightarrow> 'l \<Rightarrow> 'l \<Rightarrow> stackGID \<Rightarrow> stack \<Rightarrow> 'l lockOrder \<Rightarrow> 'l action list" where
  "recordEdgeTrace opts b p bs stk l =
     [OrderSet (BeforeAfter b p), OrderLen] @
     (if len (fmupd (BeforeAfter b p) \<lparr>before = stack bs, after = stk\<rparr> (order l)) = MaxMapSize opts
      then [OrderReset] else [])"

text \<open>
  The loop of \<open>preLock\<close> (lines 275-314) over the keys of \<open>l.cur\<close> in range order
  \<open>ks\<close>; the loop does not change \<open>l.cur\<close>. After the loop, line 315 releases the guard.
\<close>

fun preLock_loop :: "Opts \<Rightarrow> 'l list \<Rightarrow> stack \<Rightarrow> gid \<Rightarrow> 'l \<Rightarrow> 'l list \<Rightarrow> 'l lockOrder \<Rightarrow> 'l result" where
  "preLock_loop opts oks stk g p [] l = Result l [LoMuUnlock] Returned"
| "preLock_loop opts oks stk g p (b # ks) l =
     (case fmlookup (cur l) b of
        None \<Rightarrow> preLock_loop opts oks stk g p ks l
      | Some bs \<Rightarrow>
          if b = p then
            (if gid bs = g then reported opts l (recursiveReport oks l stk g p bs)
             else preLock_loop opts oks stk g p ks l)
          else if gid bs \<noteq> g then preLock_loop opts oks stk g p ks l
          else
            (case fmlookup (order l) (BeforeAfter p b) of
               Some s \<Rightarrow> reported opts l (OrderGet (BeforeAfter p b) # inversionReport oks l stk p bs s)
             | None \<Rightarrow>
                 prefixed (OrderGet (BeforeAfter p b) # recordEdgeTrace opts b p bs stk l)
                   (preLock_loop opts oks stk g p ks (recordEdge opts b p bs stk l))))"

text \<open>\<open>lockOrder.preLock\<close> (lines 268-316); \<open>ks\<close> is the range order of its loop and
  \<open>oks\<close> that of \<open>other\<close>, should a report be written.\<close>

definition preLock :: "Opts \<Rightarrow> provider \<Rightarrow> 'l list \<Rightarrow> 'l list \<Rightarrow> nat \<Rightarrow> 'l \<Rightarrow> 'l lockOrder \<Rightarrow> 'l result" where
  "preLock opts pr ks oks skip p l =
     (if DisableLockOrderDetection opts then Result l [] Returned
      else prefixed [Callers skip, GoidGet, LoMuLock, CurRange]
             (preLock_loop opts oks (callers pr skip) (goid_Get pr) p ks l))"

text \<open>\<open>lockOrder.postLock\<close> (lines 260-266) and \<open>lockOrder.postUnlock\<close> (lines 318-322).\<close>

definition postLock :: "provider \<Rightarrow> nat \<Rightarrow> 'l \<Rightarrow> 'l lockOrder \<Rightarrow> 'l result" where
  "postLock pr skip p l =
     Result (l\<lparr>cur := fmupd p \<lparr>stack = callers pr skip, gid = goid_Get pr\<rparr> (cur l)\<rparr>)
       [Callers skip, GoidGet, LoMuLock, CurSet p, LoMuUnlock] Returned"

definition postUnlock :: "'l \<Rightarrow> 'l lockOrder \<Rightarrow> 'l result" where
  "postUnlock p l = Result (l\<lparr>cur := fmdrop p (cur l)\<rparr>) [LoMuLock, CurDelete p, LoMuUnlock] Returned"

section \<open>The instrumented lock types\<close>

text \<open>
  The watchdog goroutine of \<open>lock\<close> (lines 180-221). What it does depends on
  which case of its \<open>select\<close> is ready each time round the loop; that is the
  input of the model, one \<open>selected\<close> per round. When the timer case is taken, the
  round carries what the goroutine then finds: the global state at its re-check, the
  range order of \<open>other\<close>, and the goroutine ids that \<open>goid.ExtractGID\<close> reads from
  the segments of the \<open>stacks()\<close> dump. With no round left the goroutine is still
  waiting in \<open>select\<close>.
\<close>

datatype 'l selected = Timer "'l lockOrder" "'l list" "gid list" | Chan

datatype wctl = Waiting | Finished | Exited ctl

definition doingNow :: "gid \<Rightarrow> gid \<Rightarrow> 'l action list" where
  "doingNow prev_gid g = ExtractGID # (if g = prev_gid then [Warn (DoingNow prev_gid)] else [])"

definition timeoutReport :: "Opts \<Rightarrow> provider \<Rightarrow> 'l \<Rightarrow> 'l lockOrder \<Rightarrow> 'l list \<Rightarrow> gid list \<Rightarrow> stackGID \<Rightarrow> 'l action list" where
  "timeoutReport opts pr ptr l oks grs prev =
     [OptsMuLock, Warn Header, Warn PreviousPlace, Warn (GoroutineLock (gid prev) ptr),
      PrintStack (stack prev), Warn (TryingFor (DeadlockTimeout opts)),
      GoidGet, Warn (GoroutineLock (goid_Get pr) ptr),
      Callers 2, PrintStack (callers pr 2), Stacks] @
     concat (map (doingNow (gid prev)) grs) @
     other oks l ptr @
     (if PrintAllCurrentGoroutines opts then [Warn AllCurrentGoroutines] else []) @
     [OptsMuUnlock, LoMuUnlock] @ potentialDeadlock opts"

fun watchdog :: "Opts \<Rightarrow> provider \<Rightarrow> 'l \<Rightarrow> nat \<Rightarrow> 'l selected list \<Rightarrow> 'l action list \<times> wctl" where
  "watchdog opts pr ptr n [] = ([NewTimer (DeadlockTimeout opts), DeferStop], Waiting)"
| "watchdog opts pr ptr n (Chan # rs) =
     ([NewTimer (DeadlockTimeout opts), DeferStop, RecvChan] @ replicate (Suc n) TimerStop, Finished)"
| "watchdog opts pr ptr n (Timer l oks grs # rs) =
     (case fmlookup (cur l) ptr of
        None \<Rightarrow>
          (let (as, c) = watchdog opts pr ptr (Suc n) rs
           in ([NewTimer (DeadlockTimeout opts), DeferStop, RecvTimer, LoMuLock, CurGet ptr, LoMuUnlock] @ as, c))
      | Some prev \<Rightarrow>
          ([NewTimer (DeadlockTimeout opts), DeferStop, RecvTimer, LoMuLock, CurGet ptr] @
           timeoutReport opts pr ptr l oks grs prev, Exited (exited opts)))"

text \<open>
  \<open>lock\<close> (lines 170-228), the calling goroutine's side. While the goroutine is
  inside \<open>lockFn\<close> the other goroutines go on changing the global state: \<open>env\<close>
  maps the state \<open>preLock\<close> left to the state \<open>postLock\<close> finds.
\<close>

definition lock :: "Opts \<Rightarrow> provider \<Rightarrow> 'l list \<Rightarrow> 'l list \<Rightarrow> ('l lockOrder \<Rightarrow> 'l lockOrder) \<Rightarrow>
    acquire \<Rightarrow> 'l \<Rightarrow> 'l lockOrder \<Rightarrow> 'l result" where
  "lock opts pr ks oks env lockFn ptr l =
     (if Disable opts then Result l [LockFn lockFn] Returned
      else
        (let r = preLock opts pr ks oks 4 ptr l in
         if ctl_of r \<noteq> Returned then r
         else if DeadlockTimeout opts \<le> 0 then
           prefixed (trace_of r @ [LockFn lockFn]) (postLock pr 4 ptr (env (state_of r)))
         else
           (let r2 = postLock pr 4 ptr (env (state_of r))
            in Result (state_of r2) (trace_of r @ [MakeChan, Go, LockFn lockFn] @ trace_of r2 @ [CloseChan]) Returned)))"

text \<open>
  The three unlock methods (lines 94-99, 126-131, 145-150) differ only in the release
  they call first.
\<close>

definition unlock :: "Opts \<Rightarrow> release \<Rightarrow> 'l \<Rightarrow> 'l lockOrder \<Rightarrow> 'l result" where
  "unlock opts unlockFn m l =
     (if \<not> Disable opts then prefixed [UnlockFn unlockFn] (postUnlock m l)
      else Result l [UnlockFn unlockFn] Returned)"

text \<open>The methods of \<open>Mutex\<close> and \<open>RWMutex\<close> (lines 84-150).\<close>

definition Mutex_Lock where "Mutex_Lock opts pr ks oks env m = lock opts pr ks oks env Mutex_mu_Lock m"
definition Mutex_Unlock where "Mutex_Unlock opts m = unlock opts Mutex_mu_Unlock m"
definition RWMutex_Lock where "RWMutex_Lock opts pr ks oks env m = lock opts pr ks oks env RWMutex_mu_Lock m"
definition RWMutex_Unlock where "RWMutex_Unlock opts m = unlock opts RWMutex_mu_Unlock m"
definition RWMutex_RLock where "RWMutex_RLock opts pr ks oks env m = lock opts pr ks oks env RWMutex_mu_RLock m"
definition RWMutex_RUnlock where "RWMutex_RUnlock opts m = unlock opts RWMutex_mu_RUnlock m"

section \<open>Runs of the global state\<close>

text \<open>
  The global state changes only inside the three sections that hold \<open>lo.mu\<close>:
  \<open>preLock\<close>, \<open>postLock\<close> and \<open>postUnlock\<close>. A run is a sequence of such
  sections, taken by any goroutines in any interleaving; between two of them the
  guard is free. A run ends when a section ends the process.
\<close>

datatype 'l guarded =
    PreLock provider "'l list" "'l list" nat 'l
  | PostLock provider nat 'l
  | PostUnlock 'l

fun guarded_result :: "Opts \<Rightarrow> 'l guarded \<Rightarrow> 'l lockOrder \<Rightarrow> 'l result" where
  "guarded_result opts (PreLock pr ks oks skip p) l = preLock opts pr ks oks skip p l"
| "guarded_result opts (PostLock pr skip p) l = postLock pr skip p l"
| "guarded_result opts (PostUnlock p) l = postUnlock p l"

fun run :: "Opts \<Rightarrow> 'l guarded list \<Rightarrow> 'l lockOrder \<Rightarrow> 'l lockOrder option" where
  "run opts [] l = Some l"
| "run opts (s # ss) l =
     (if ctl_of (guarded_result opts s l) = Returned then run opts ss (state_of (guarded_result opts s l))
      else None)"

section \<open>Reading a trace\<close>

text \<open>
  \<open>while_held lk ul h as\<close>: the actions of \<open>as\<close> performed while the mutex taken by
  \<open>lk\<close> and released by \<open>ul\<close> is held, \<open>h\<close> saying whether it is held at the start.
\<close>

fun while_held :: "'a \<Rightarrow> 'a \<Rightarrow> bool \<Rightarrow> 'a list \<Rightarrow> 'a list" where
  "while_held lk ul h [] = []"
| "while_held lk ul h (a # as) =
     (if a = lk then while_held lk ul True as
      else if a = ul then while_held lk ul False as
      else if h then a # while_held lk ul h as
      else while_held lk ul h as)"

fun held_after :: "'a \<Rightarrow> 'a \<Rightarrow> bool \<Rightarrow> 'a list \<Rightarrow> bool" where
  "held_after lk ul h [] = h"
| "held_after lk ul h (a # as) = held_after lk ul (if a = lk then True else if a = ul then False else h) as"

definition under_lo_mu :: "'l action list \<Rightarrow> 'l action list" where
  "under_lo_mu as = while_held LoMuLock LoMuUnlock False as"

definition under_Opts_mu :: "'l action list \<Rightarrow> 'l action list" where
  "under_Opts_mu as = while_held OptsMuLock OptsMuUnlock False as"

text \<open>Calls into the Frame/Identity provider: stack capture, stack rendering, the dump of
  all goroutines, and the goroutine id (read or parsed).\<close>

fun provider_call :: "'l action \<Rightarrow> bool" where
  "provider_call (Callers n) = True"
| "provider_call GoidGet = True"
| "provider_call (PrintStack s) = True"
| "provider_call Stacks = True"
| "provider_call ExtractGID = True"
| "provider_call a = False"

fun blocking_acquire :: "'l action \<Rightarrow> bool" where
  "blocking_acquire (LockFn f) = True"
| "blocking_acquire a = False"

text \<open>Reads and writes of the held-map and of the order table.\<close>

fun bookkeeping :: "'l action \<Rightarrow> bool" where
  "bookkeeping CurRange = True"
| "bookkeeping (CurGet p) = True"
| "bookkeeping (CurSet p) = True"
| "bookkeeping (CurDelete p) = True"
| "bookkeeping (OrderGet k) = True"
| "bookkeeping (OrderSet k) = True"
| "bookkeeping OrderLen = True"
| "bookkeeping OrderReset = True"
| "bookkeeping a = False"

text \<open>The sentence of the specification on the guard, as a property of a trace.\<close>

definition guard_never_across :: "'l action list \<Rightarrow> bool" where
  "guard_never_across as \<longleftrightarrow>
     list_all (\<lambda>a. \<not> provider_call a \<and> \<not> blocking_acquire a) (under_lo_mu as)"

text \<open>The pass-through the specification asks of a disabled detector: the raw primitive.\<close>

definition raw_acquire :: "acquire \<Rightarrow> 'l lockOrder \<Rightarrow> 'l result" where
  "raw_acquire f l = Result l [LockFn f] Returned"

definition raw_release :: "release \<Rightarrow> 'l lockOrder \<Rightarrow> 'l result" where
  "raw_release u l = Result l [UnlockFn u] Returned"

section \<open>The order of visits\<close>

text \<open>\<open>held_by l g b\<close>: the held-map records lock \<open>b\<close> as held by goroutine \<open>g\<close>.\<close>

definition held_by :: "'l lockOrder \<Rightarrow> gid \<Rightarrow> 'l \<Rightarrow> bool" where
  "held_by l g b \<longleftrightarrow> (case fmlookup (cur l) b of None \<Rightarrow> False | Some bs \<Rightarrow> gid bs = g)"

text \<open>The keys that a range in order \<open>ks\<close> visits before it visits \<open>b\<close>.\<close>

definition visited_before :: "'l list \<Rightarrow> 'l \<Rightarrow> 'l list" where
  "visited_before ks b = takeWhile (\<lambda>k. k \<noteq> b) ks"

text \<open>
  The order table as the loop of \<open>preLock\<close> finds it when it visits \<open>b\<close>: the table
  the loop has left after the keys visited before \<open>b\<close>.
\<close>

definition table_when_visited ::
    "Opts \<Rightarrow> 'l list \<Rightarrow> stack \<Rightarrow> gid \<Rightarrow> 'l \<Rightarrow> 'l list \<Rightarrow> 'l lockOrder \<Rightarrow> 'l \<Rightarrow> ('l beforeAfter, ss) fmap" where
  "table_when_visited opts oks stk g p ks l b =
     order (state_of (preLock_loop opts oks stk g p (visited_before ks b) l))"

text \<open>
  Before it visits \<open>p\<close>, the loop visits a lock \<open>b\<close> held by goroutine \<open>g\<close> for which
  the table then has the edge from \<open>p\<close> to \<open>b\<close>.
\<close>

definition inversion_met_first ::
    "Opts \<Rightarrow> 'l list \<Rightarrow> stack \<Rightarrow> gid \<Rightarrow> 'l \<Rightarrow> 'l list \<Rightarrow> 'l lockOrder \<Rightarrow> bool" where
  "inversion_met_first opts oks stk g p ks l \<longleftrightarrow>
     list_ex (\<lambda>b. held_by l g b \<and> fmlookup (table_when_visited opts oks stk g p ks l b) (BeforeAfter p b) \<noteq> None)
       (visited_before ks p)"

section \<open>Notions used in the proofs\<close>

text \<open>What the body of a report of \<open>preLock\<close> never contains.\<close>

definition report_part :: "'l action \<Rightarrow> bool" where
  "report_part a \<longleftrightarrow> a \<noteq> LoMuLock \<and> a \<noteq> LoMuUnlock \<and> a \<noteq> CallOnPotentialDeadlock \<and> a \<noteq> Fatal
      \<and> a \<noteq> OrderReset \<and> a \<noteq> Warn Header \<and> \<not> blocking_acquire a \<and> (\<forall>k. a \<noteq> OrderSet k)"

text \<open>Mutex operations and the two calls that end a report.\<close>

fun control_action :: "'l action \<Rightarrow> bool" where
  "control_action LoMuLock = True"
| "control_action LoMuUnlock = True"
| "control_action OptsMuLock = True"
| "control_action OptsMuUnlock = True"
| "control_action CallOnPotentialDeadlock = True"
| "control_action Fatal = True"
| "control_action a = False"

text \<open>The lines of the timeout report between its header and the release of \<open>Opts.mu\<close>.\<close>

definition timeoutBody :: "Opts \<Rightarrow> provider \<Rightarrow> 'l \<Rightarrow> 'l lockOrder \<Rightarrow> 'l list \<Rightarrow> gid list \<Rightarrow> stackGID \<Rightarrow> 'l action list" where
  "timeoutBody opts pr ptr l oks grs prev =
     [Warn PreviousPlace, Warn (GoroutineLock (gid prev) ptr),
      PrintStack (stack prev), Warn (TryingFor (DeadlockTimeout opts)),
      GoidGet, Warn (GoroutineLock (goid_Get pr) ptr),
      Callers 2, PrintStack (callers pr 2), Stacks] @
     concat (map (doingNow (gid prev)) grs) @
     other oks l ptr @
     (if PrintAllCurrentGoroutines opts then [Warn AllCurrentGoroutines] else [])"

text \<open>One round of the watchdog in which the timer fired and nobody held the lock.\<close>

definition rearm :: "Opts \<Rightarrow> 'l \<Rightarrow> 'l action list" where
  "rearm opts ptr = [NewTimer (DeadlockTimeout opts), DeferStop, RecvTimer, LoMuLock, CurGet ptr, LoMuUnlock]"

definition rearmed :: "Opts \<Rightarrow> 'l \<Rightarrow> nat \<Rightarrow> 'l action list" where
  "rearmed opts ptr k = concat (replicate k (rearm opts ptr))"

section \<open>Example inputs\<close>

text \<open>Two goroutines, as the provider answers them, and three lock handles.\<close>

definition goroutine1 :: provider where
  "goroutine1 = \<lparr>callers = (\<lambda>skip. [1]), goid_Get = 1\<rparr>"

definition goroutine2 :: provider where
  "goroutine2 = \<lparr>callers = (\<lambda>skip. [2]), goid_Get = 2\<rparr>"

definition lockA :: nat where "lockA = 1"
definition lockB :: nat where "lockB = 2"
definition lockC :: nat where "lockC = 3"

definition disabledOpts :: Opts where
  "disabledOpts = defaultOpts\<lparr>Disable := True\<rparr>"

text \<open>A callback that returns, and goroutine 1 holding A.\<close>

definition returningOpts :: Opts where
  "returningOpts = defaultOpts\<lparr>OnPotentialDeadlock := CbReturns\<rparr>"

definition heldA :: "nat lockOrder" where
  "heldA = \<lparr>cur = fmupd lockA \<lparr>stack = [1], gid = 1\<rparr> fmempty, order = fmempty\<rparr>"

text \<open>
  A table of two entries, and a scenario: goroutine 1 locks A and then B; later it
  unlocks both and goroutine 2 locks B and then C.
\<close>

definition twoOpts :: Opts where
  "twoOpts = defaultOpts\<lparr>MaxMapSize := 2\<rparr>"

definition firstAB :: "nat guarded list" where
  "firstAB = [PreLock goroutine1 [] [] 4 lockA, PostLock goroutine1 4 lockA,
              PreLock goroutine1 [lockA] [lockA] 4 lockB, PostLock goroutine1 4 lockB]"

definition afterAB :: "nat lockOrder" where
  "afterAB = \<lparr>cur = fmupd lockB \<lparr>stack = [1], gid = 1\<rparr> (fmupd lockA \<lparr>stack = [1], gid = 1\<rparr> fmempty),
              order = fmupd (BeforeAfter lockA lockB) \<lparr>before = [1], after = [1]\<rparr> fmempty\<rparr>"

definition laterBC :: "nat guarded list" where
  "laterBC = [PostUnlock lockB, PostUnlock lockA,
              PreLock goroutine2 [] [] 4 lockB, PostLock goroutine2 4 lockB,
              PreLock goroutine2 [lockB] [lockB] 4 lockC, PostLock goroutine2 4 lockC]"

definition afterBC :: "nat lockOrder" where
  "afterBC = \<lparr>cur = fmupd lockC \<lparr>stack = [2], gid = 2\<rparr> (fmupd lockB \<lparr>stack = [2], gid = 2\<rparr> fmempty),
              order = fmempty\<rparr>"

text \<open>Goroutine 2 holds B while the table has the edge from A to B.\<close>

definition invertedAB :: "nat lockOrder" where
  "invertedAB = \<lparr>cur = fmupd lockB \<lparr>stack = [2], gid = 2\<rparr> fmempty,
                 order = fmupd (BeforeAfter lockA lockB) \<lparr>before = [1], after = [1]\<rparr> fmempty\<rparr>"

text \<open>After a second reader has locked A, and after one reader has unlocked it.\<close>

definition readA :: "nat lockOrder" where
  "readA = \<lparr>cur = fmupd lockA \<lparr>stack = [2], gid = 2\<rparr> fmempty, order = fmempty\<rparr>"

definition releasedA :: "nat lockOrder" where
  "releasedA = \<lparr>cur = fmempty, order = fmempty\<rparr>"

section \<open>Lemmas on traces and on the loop of preLock\<close>

lemma while_held_append:
  "while_held lk ul h (xs @ ys) = while_held lk ul h xs @ while_held lk ul (held_after lk ul h xs) ys"
  by (induction xs arbitrary: h) simp_all

lemma held_after_append:
  "held_after lk ul h (xs @ ys) = held_after lk ul (held_after lk ul h xs) ys"
  by (induction xs arbitrary: h) simp_all

lemma while_held_untouched:
  "lk \<notin> set as \<Longrightarrow> ul \<notin> set as \<Longrightarrow> while_held lk ul h as = (if h then as else [])"
  by (induction as) auto

lemma held_after_untouched:
  "lk \<notin> set as \<Longrightarrow> ul \<notin> set as \<Longrightarrow> held_after lk ul h as = h"
  by (induction as) auto

lemma other_entry_actions:
  "a \<in> set (other_entry m ptr k) \<Longrightarrow> (\<exists>g k'. a = Warn (GoroutineLock g k')) \<or> (\<exists>s. a = PrintStack s)"
  by (auto split: option.splits if_splits)

lemma other_actions:
  "a \<in> set (other ks l ptr) \<Longrightarrow>
     a = CurRange \<or> a = Warn OthersHolding \<or> (\<exists>g k. a = Warn (GoroutineLock g k)) \<or> (\<exists>s. a = PrintStack s)"
  unfolding other_def using other_entry_actions by (fastforce split: if_splits)

lemma potentialDeadlock_cases:
  "potentialDeadlock opts = [CallOnPotentialDeadlock] \<and> exited opts = ExitedInCallback \<and> OnPotentialDeadlock opts = CbExits
   \<or> potentialDeadlock opts = [CallOnPotentialDeadlock, Fatal] \<and> exited opts = ExitedInFatal \<and> OnPotentialDeadlock opts = CbReturns"
  by (cases "OnPotentialDeadlock opts") (simp_all add: potentialDeadlock_def exited_def)

lemma exited_not_Returned [simp]: "exited opts \<noteq> Returned"
  by (simp add: exited_def split: callback.splits)

lemma other_report_part: "a \<in> set (other ks l ptr) \<Longrightarrow> report_part a"
  by (drule other_actions) (auto simp: report_part_def)

lemma recursiveReport_part: "a \<in> set (recursiveReport oks l stk g p bs) \<Longrightarrow> report_part a"
  unfolding recursiveReport_def using other_report_part [of a oks l p]
  by (auto simp: report_part_def)

lemma inversionReport_part: "a \<in> set (inversionReport oks l stk p bs s) \<Longrightarrow> report_part a"
  unfolding inversionReport_def using other_report_part [of a oks l p]
  by (auto simp: report_part_def)

lemma recursiveReport_marks:
  "Warn RecursiveLocking \<in> set (recursiveReport oks l stk g p bs)"
  "Warn InconsistentLocking \<notin> set (recursiveReport oks l stk g p bs)"
  unfolding recursiveReport_def using other_actions [of "Warn InconsistentLocking" oks l p]
  by auto

lemma inversionReport_marks:
  "Warn InconsistentLocking \<in> set (inversionReport oks l stk p bs s)"
  "Warn RecursiveLocking \<notin> set (inversionReport oks l stk p bs s)"
  unfolding inversionReport_def using other_actions [of "Warn RecursiveLocking" oks l p]
  by auto

lemma recordEdgeTrace_bookkeeping: "list_all bookkeeping (recordEdgeTrace opts b p bs stk l)"
  by (simp add: recordEdgeTrace_def)

lemma recordEdge_cur [simp]: "cur (recordEdge opts b p bs stk l) = cur l"
  by (simp add: recordEdge_def Let_def)

lemma preLock_loop_cur [simp]: "cur (state_of (preLock_loop opts oks stk g p ks l)) = cur l"
  by (induction ks arbitrary: l) (auto simp: reported_def prefixed_def split: option.splits)

lemma preLock_loop_Returned:
  "ctl_of (preLock_loop opts oks stk g p ks l) = Returned \<Longrightarrow>
     \<exists>as. trace_of (preLock_loop opts oks stk g p ks l) = as @ [LoMuUnlock] \<and> list_all bookkeeping as"
proof (induction ks arbitrary: l)
  case Nil
  then show ?case by simp
next
  case (Cons b ks)
  show ?case
  proof (cases "fmlookup (cur l) b")
    case None
    with Cons show ?thesis by simp
  next
    case (Some bs)
    show ?thesis
    proof (cases "b = p \<or> gid bs \<noteq> g")
      case True
      with Some Cons show ?thesis by (auto simp: reported_def split: if_splits)
    next
      case False
      show ?thesis
      proof (cases "fmlookup (order l) (BeforeAfter p b)")
        case None
        let ?l' = "recordEdge opts b p bs stk l"
        from Cons.prems Some False None
        have "ctl_of (preLock_loop opts oks stk g p ks ?l') = Returned"
          by (simp add: prefixed_def)
        from Cons.IH [OF this] obtain as where
          as: "trace_of (preLock_loop opts oks stk g p ks ?l') = as @ [LoMuUnlock]" "list_all bookkeeping as"
          by blast
        have "trace_of (preLock_loop opts oks stk g p (b # ks) l)
              = (OrderGet (BeforeAfter p b) # recordEdgeTrace opts b p bs stk l @ as) @ [LoMuUnlock]"
          using Some False None as by (simp add: prefixed_def)
        moreover have "list_all bookkeeping (OrderGet (BeforeAfter p b) # recordEdgeTrace opts b p bs stk l @ as)"
          using as recordEdgeTrace_bookkeeping by simp
        ultimately show ?thesis by blast
      next
        case (Some s)
        with Cons.prems \<open>fmlookup (cur l) b = Some bs\<close> False show ?thesis
          by (simp add: reported_def)
      qed
    qed
  qed
qed

lemma preLock_loop_exit:
  "ctl_of (preLock_loop opts oks stk g p ks l) \<noteq> Returned \<Longrightarrow>
     \<exists>as. trace_of (preLock_loop opts oks stk g p ks l) = as @ potentialDeadlock opts
        \<and> ctl_of (preLock_loop opts oks stk g p ks l) = exited opts
        \<and> LoMuLock \<notin> set as \<and> LoMuUnlock \<notin> set as \<and> CallOnPotentialDeadlock \<notin> set as \<and> Fatal \<notin> set as
        \<and> (\<forall>f. LockFn f \<notin> set as) \<and> Warn Header \<notin> set as
        \<and> (Warn RecursiveLocking \<in> set as \<or> Warn InconsistentLocking \<in> set as)"
proof (induction ks arbitrary: l)
  case Nil
  then show ?case by simp
next
  case (Cons b ks)
  show ?case
  proof (cases "fmlookup (cur l) b")
    case None
    with Cons show ?thesis by simp
  next
    case (Some bs)
    note cur_b = this
    show ?thesis
    proof (cases "b = p")
      case True
      show ?thesis
      proof (cases "gid bs = g")
        case True
        have "\<forall>a \<in> set (recursiveReport oks l stk g p bs). report_part a"
          by (simp add: recursiveReport_part)
        then show ?thesis using cur_b \<open>b = p\<close> True recursiveReport_marks(1) [of oks l stk g p bs]
          by (fastforce simp: reported_def report_part_def)
      next
        case False
        with cur_b \<open>b = p\<close> Cons show ?thesis by simp
      qed
    next
      case False
      note b_p = this
      show ?thesis
      proof (cases "gid bs = g")
        case False
        with cur_b b_p Cons show ?thesis by simp
      next
        case True
        show ?thesis
        proof (cases "fmlookup (order l) (BeforeAfter p b)")
          case (Some s)
          have "\<forall>a \<in> set (inversionReport oks l stk p bs s). report_part a"
            by (simp add: inversionReport_part)
          then show ?thesis using cur_b b_p True Some inversionReport_marks(1) [of oks l stk p bs s]
            by (fastforce simp: reported_def report_part_def)
        next
          case None
          let ?l' = "recordEdge opts b p bs stk l"
          let ?pre = "OrderGet (BeforeAfter p b) # recordEdgeTrace opts b p bs stk l"
          have eq: "preLock_loop opts oks stk g p (b # ks) l = prefixed ?pre (preLock_loop opts oks stk g p ks ?l')"
            using cur_b b_p True None by simp
          with Cons.prems have "ctl_of (preLock_loop opts oks stk g p ks ?l') \<noteq> Returned"
            by (simp add: prefixed_def)
          from Cons.IH [OF this] obtain as where
            as: "trace_of (preLock_loop opts oks stk g p ks ?l') = as @ potentialDeadlock opts"
              "ctl_of (preLock_loop opts oks stk g p ks ?l') = exited opts"
              "LoMuLock \<notin> set as" "LoMuUnlock \<notin> set as" "CallOnPotentialDeadlock \<notin> set as" "Fatal \<notin> set as"
              "\<forall>f. LockFn f \<notin> set as" "Warn Header \<notin> set as"
              "Warn RecursiveLocking \<in> set as \<or> Warn InconsistentLocking \<in> set as"
            by blast
          have "trace_of (preLock_loop opts oks stk g p (b # ks) l) = (?pre @ as) @ potentialDeadlock opts"
            using eq as(1) by (simp add: prefixed_def)
          moreover have "ctl_of (preLock_loop opts oks stk g p (b # ks) l) = exited opts"
            using eq as(2) by (simp add: prefixed_def)
          moreover have "set ?pre \<subseteq> {OrderGet (BeforeAfter p b), OrderSet (BeforeAfter b p), OrderLen, OrderReset}"
            by (auto simp: recordEdgeTrace_def split: if_splits)
          then have "LoMuLock \<notin> set (?pre @ as)" "LoMuUnlock \<notin> set (?pre @ as)"
            "CallOnPotentialDeadlock \<notin> set (?pre @ as)" "Fatal \<notin> set (?pre @ as)"
            "\<forall>f. LockFn f \<notin> set (?pre @ as)" "Warn Header \<notin> set (?pre @ as)"
            using as(3-8) by auto
          moreover have "Warn RecursiveLocking \<in> set (?pre @ as) \<or> Warn InconsistentLocking \<in> set (?pre @ as)"
            using as(9) by auto
          ultimately show ?thesis by blast
        qed
      qed
    qed
  qed
qed

lemma bookkeeping_harmless: "bookkeeping a \<Longrightarrow> \<not> provider_call a \<and> \<not> blocking_acquire a \<and> a \<noteq> LoMuLock \<and> a \<noteq> LoMuUnlock"
  by (cases a) simp_all

lemma bookkeeping_untouched:
  "list_all bookkeeping as \<Longrightarrow> LoMuLock \<notin> set as \<and> LoMuUnlock \<notin> set as"
  by (induction as) (auto dest: bookkeeping_harmless)

lemma while_held_bookkeeping:
  "list_all bookkeeping as \<Longrightarrow> while_held LoMuLock LoMuUnlock h as = (if h then as else [])"
  using bookkeeping_untouched while_held_untouched by metis

lemma held_after_bookkeeping:
  "list_all bookkeeping as \<Longrightarrow> held_after LoMuLock LoMuUnlock h as = h"
  using bookkeeping_untouched held_after_untouched by metis

lemma preLock_Returned:
  assumes "ctl_of (preLock opts pr ks oks skip p l) = Returned"
  shows "list_all bookkeeping (under_lo_mu (trace_of (preLock opts pr ks oks skip p l)))
       \<and> held_after LoMuLock LoMuUnlock False (trace_of (preLock opts pr ks oks skip p l)) = False"
proof (cases "DisableLockOrderDetection opts")
  case True
  then show ?thesis by (simp add: preLock_def under_lo_mu_def)
next
  case False
  with assms have "ctl_of (preLock_loop opts oks (callers pr skip) (goid_Get pr) p ks l) = Returned"
    by (simp add: preLock_def prefixed_def)
  from preLock_loop_Returned [OF this] obtain as where
    as: "trace_of (preLock_loop opts oks (callers pr skip) (goid_Get pr) p ks l) = as @ [LoMuUnlock]"
      "list_all bookkeeping as" by blast
  have tr: "trace_of (preLock opts pr ks oks skip p l) = [Callers skip, GoidGet, LoMuLock, CurRange] @ as @ [LoMuUnlock]"
    using False as(1) by (simp add: preLock_def prefixed_def)
  show ?thesis
    unfolding tr under_lo_mu_def
    using as(2) by (simp add: while_held_append held_after_append while_held_bookkeeping held_after_bookkeeping)
qed

lemma preLock_exit:
  assumes "ctl_of (preLock opts pr ks oks skip p l) \<noteq> Returned"
  shows "\<exists>as. trace_of (preLock opts pr ks oks skip p l)
               = [Callers skip, GoidGet, LoMuLock, CurRange] @ as @ potentialDeadlock opts
        \<and> ctl_of (preLock opts pr ks oks skip p l) = exited opts
        \<and> LoMuLock \<notin> set as \<and> LoMuUnlock \<notin> set as \<and> CallOnPotentialDeadlock \<notin> set as \<and> Fatal \<notin> set as
        \<and> (\<forall>f. LockFn f \<notin> set as) \<and> Warn Header \<notin> set as
        \<and> (Warn RecursiveLocking \<in> set as \<or> Warn InconsistentLocking \<in> set as)"
proof -
  from assms have en: "\<not> DisableLockOrderDetection opts"
    by (auto simp: preLock_def)
  with assms have "ctl_of (preLock_loop opts oks (callers pr skip) (goid_Get pr) p ks l) \<noteq> Returned"
    by (simp add: preLock_def prefixed_def)
  from preLock_loop_exit [OF this] en show ?thesis
    by (auto simp: preLock_def prefixed_def)
qed

lemma under_lo_mu_preLock_exit:
  assumes "ctl_of (preLock opts pr ks oks skip p l) \<noteq> Returned"
  shows "\<exists>as. under_lo_mu (trace_of (preLock opts pr ks oks skip p l)) = CurRange # as @ potentialDeadlock opts
          \<and> (Warn RecursiveLocking \<in> set as \<or> Warn InconsistentLocking \<in> set as)"
proof -
  from preLock_exit [OF assms] obtain as where
    as: "trace_of (preLock opts pr ks oks skip p l) = [Callers skip, GoidGet, LoMuLock, CurRange] @ as @ potentialDeadlock opts"
      "LoMuLock \<notin> set as" "LoMuUnlock \<notin> set as"
      "Warn RecursiveLocking \<in> set as \<or> Warn InconsistentLocking \<in> set as"
    by blast
  have pd: "LoMuLock \<notin> set (potentialDeadlock opts :: 'a action list)" "LoMuUnlock \<notin> set (potentialDeadlock opts :: 'a action list)"
    by (simp_all add: potentialDeadlock_def split: callback.splits)
  have "under_lo_mu (trace_of (preLock opts pr ks oks skip p l)) = CurRange # as @ potentialDeadlock opts"
    unfolding as(1) under_lo_mu_def using as(2,3) pd
    by (simp add: while_held_append held_after_append while_held_untouched held_after_untouched)
  with as(4) show ?thesis by blast
qed

lemma other_plain: "list_all (\<lambda>a. \<not> control_action a \<and> a \<noteq> Warn Header) (other ks l ptr)"
  unfolding list_all_iff
proof
  fix a assume "a \<in> set (other ks l ptr)"
  from other_actions [OF this] show "\<not> control_action a \<and> a \<noteq> Warn Header" by auto
qed

lemma doingNow_plain: "list_all (\<lambda>a. \<not> control_action a \<and> a \<noteq> Warn Header) (concat (map (doingNow g) grs))"
  by (induction grs) (simp_all add: doingNow_def)

lemma timeoutBody_plain:
  "list_all (\<lambda>a. \<not> control_action a \<and> a \<noteq> Warn Header) (timeoutBody opts pr ptr l oks grs prev)"
  unfolding timeoutBody_def using other_plain [of oks l ptr] doingNow_plain [of "gid prev" grs]
  by simp

lemma timeoutReport_eq:
  "timeoutReport opts pr ptr l oks grs prev =
     [OptsMuLock, Warn Header] @ timeoutBody opts pr ptr l oks grs prev @ [OptsMuUnlock, LoMuUnlock] @ potentialDeadlock opts"
  by (simp add: timeoutReport_def timeoutBody_def)

lemma plain_untouched:
  "list_all (\<lambda>a. \<not> control_action a \<and> a \<noteq> Warn Header) as \<Longrightarrow>
     LoMuLock \<notin> set as \<and> LoMuUnlock \<notin> set as \<and> OptsMuLock \<notin> set as \<and> OptsMuUnlock \<notin> set as
     \<and> CallOnPotentialDeadlock \<notin> set as \<and> Fatal \<notin> set as \<and> Warn Header \<notin> set as"
  by (induction as) auto

lemma plain_count: "list_all (\<lambda>a. \<not> control_action a \<and> a \<noteq> Warn Header) as \<Longrightarrow> count_list as (Warn Header) = 0"
  by (induction as) auto

lemma potentialDeadlock_count: "count_list (potentialDeadlock opts) (Warn Header) = 0"
  by (simp add: potentialDeadlock_def split: callback.splits)

lemma timeoutReport_count: "count_list (timeoutReport opts pr ptr l oks grs prev) (Warn Header) = 1"
  unfolding timeoutReport_eq
  using plain_count [OF timeoutBody_plain, of opts pr ptr l oks grs prev] potentialDeadlock_count [of opts]
  by simp

lemma rearmed_Suc: "rearmed opts ptr (Suc k) = rearm opts ptr @ rearmed opts ptr k"
  by (simp add: rearmed_def)

lemma rearmed_0: "rearmed opts ptr 0 = []"
  by (simp add: rearmed_def)

lemma watchdog_shape:
  "\<exists>k. (snd (watchdog opts pr ptr n rs) = Waiting
          \<and> fst (watchdog opts pr ptr n rs) = rearmed opts ptr k @ [NewTimer (DeadlockTimeout opts), DeferStop])
      \<or> (snd (watchdog opts pr ptr n rs) = Finished
          \<and> fst (watchdog opts pr ptr n rs)
              = rearmed opts ptr k @ [NewTimer (DeadlockTimeout opts), DeferStop, RecvChan] @ replicate (Suc (n + k)) TimerStop)
      \<or> (\<exists>l oks grs prev. Timer l oks grs \<in> set rs \<and> fmlookup (cur l) ptr = Some prev
          \<and> snd (watchdog opts pr ptr n rs) = Exited (exited opts)
          \<and> fst (watchdog opts pr ptr n rs)
              = rearmed opts ptr k @ [NewTimer (DeadlockTimeout opts), DeferStop, RecvTimer, LoMuLock, CurGet ptr]
                @ timeoutReport opts pr ptr l oks grs prev)"
proof (induction rs arbitrary: n)
  case Nil
  show ?case by (rule exI [of _ 0]) (simp add: rearmed_0)
next
  case (Cons r rs)
  show ?case
  proof (cases r)
    case Chan
    show ?thesis by (rule exI [of _ 0]) (simp add: Chan rearmed_0)
  next
    case (Timer l oks grs)
    show ?thesis
    proof (cases "fmlookup (cur l) ptr")
      case (Some prev)
      show ?thesis
        by (rule exI [of _ 0], rule disjI2, rule disjI2, rule exI [of _ l], rule exI [of _ oks],
            rule exI [of _ grs], rule exI [of _ prev]) (simp add: Timer Some rearmed_0)
    next
      case None
      have eq: "fst (watchdog opts pr ptr n (r # rs)) = rearm opts ptr @ fst (watchdog opts pr ptr (Suc n) rs)"
        "snd (watchdog opts pr ptr n (r # rs)) = snd (watchdog opts pr ptr (Suc n) rs)"
        by (simp_all add: Timer None rearm_def split: prod.splits)
      from Cons.IH [of "Suc n"] obtain k where
        k: "(snd (watchdog opts pr ptr (Suc n) rs) = Waiting
          \<and> fst (watchdog opts pr ptr (Suc n) rs) = rearmed opts ptr k @ [NewTimer (DeadlockTimeout opts), DeferStop])
      \<or> (snd (watchdog opts pr ptr (Suc n) rs) = Finished
          \<and> fst (watchdog opts pr ptr (Suc n) rs)
              = rearmed opts ptr k @ [NewTimer (DeadlockTimeout opts), DeferStop, RecvChan] @ replicate (Suc (Suc n + k)) TimerStop)
      \<or> (\<exists>l oks grs prev. Timer l oks grs \<in> set rs \<and> fmlookup (cur l) ptr = Some prev
          \<and> snd (watchdog opts pr ptr (Suc n) rs) = Exited (exited opts)
          \<and> fst (watchdog opts pr ptr (Suc n) rs)
              = rearmed opts ptr k @ [NewTimer (DeadlockTimeout opts), DeferStop, RecvTimer, LoMuLock, CurGet ptr]
                @ timeoutReport opts pr ptr l oks grs prev)"
        by blast
      show ?thesis
        apply (rule exI [of _ "Suc k"])
        unfolding eq rearmed_Suc
        using k by auto
    qed
  qed
qed

lemma while_lo_rearmed:
  "while_held LoMuLock LoMuUnlock False (rearmed opts ptr k @ ys)
     = replicate k (CurGet ptr) @ while_held LoMuLock LoMuUnlock False ys"
  by (induction k) (simp_all add: rearmed_0 rearmed_Suc rearm_def)

lemma while_opts_rearmed:
  "while_held OptsMuLock OptsMuUnlock False (rearmed opts ptr k @ ys)
     = while_held OptsMuLock OptsMuUnlock False ys"
  by (induction k) (simp_all add: rearmed_0 rearmed_Suc rearm_def)

lemma count_rearmed:
  "count_list (rearmed opts ptr k @ ys) (Warn m) = count_list ys (Warn m)"
  by (induction k) (simp_all add: rearmed_0 rearmed_Suc rearm_def)

lemma set_rearmed:
  "a \<in> set (rearmed opts ptr k) \<Longrightarrow> a \<in> set (rearm opts ptr)"
  by (induction k) (auto simp: rearmed_0 rearmed_Suc)

lemma list_all_replicate_bk: "list_all bookkeeping (replicate k (CurGet ptr))"
  by (induction k) simp_all

lemma under_lo_timeoutReport:
  "while_held LoMuLock LoMuUnlock True (timeoutReport opts pr ptr l oks grs prev)
     = [OptsMuLock, Warn Header] @ timeoutBody opts pr ptr l oks grs prev @ [OptsMuUnlock]"
proof -
  have u: "LoMuLock \<notin> set (timeoutBody opts pr ptr l oks grs prev)" "LoMuUnlock \<notin> set (timeoutBody opts pr ptr l oks grs prev)"
    using plain_untouched [OF timeoutBody_plain, of opts pr ptr l oks grs prev] by simp_all
  have pd: "while_held LoMuLock LoMuUnlock False (potentialDeadlock opts :: 'a action list) = []"
    by (simp add: potentialDeadlock_def split: callback.splits)
  show ?thesis
    unfolding timeoutReport_eq
    using u pd by (simp add: while_held_append held_after_append while_held_untouched held_after_untouched)
qed

lemma under_opts_timeoutReport:
  "while_held OptsMuLock OptsMuUnlock False (timeoutReport opts pr ptr l oks grs prev)
     = Warn Header # timeoutBody opts pr ptr l oks grs prev"
proof -
  have u: "OptsMuLock \<notin> set (timeoutBody opts pr ptr l oks grs prev)" "OptsMuUnlock \<notin> set (timeoutBody opts pr ptr l oks grs prev)"
    using plain_untouched [OF timeoutBody_plain, of opts pr ptr l oks grs prev] by simp_all
  have pd: "while_held OptsMuLock OptsMuUnlock False (potentialDeadlock opts :: 'a action list) = []"
    by (simp add: potentialDeadlock_def split: callback.splits)
  show ?thesis
    unfolding timeoutReport_eq
    using u pd by (simp add: while_held_append held_after_append while_held_untouched held_after_untouched)
qed

lemma preLock_Returned_shape:
  assumes "ctl_of (preLock opts pr ks oks skip p l) = Returned"
  shows "\<exists>as. list_all bookkeeping as \<and>
           (trace_of (preLock opts pr ks oks skip p l) = [] \<or>
            trace_of (preLock opts pr ks oks skip p l) = [Callers skip, GoidGet, LoMuLock, CurRange] @ as @ [LoMuUnlock])"
proof (cases "DisableLockOrderDetection opts")
  case True
  then show ?thesis by (simp add: preLock_def exI [of _ "[]"])
next
  case False
  with assms have "ctl_of (preLock_loop opts oks (callers pr skip) (goid_Get pr) p ks l) = Returned"
    by (simp add: preLock_def prefixed_def)
  from preLock_loop_Returned [OF this] False show ?thesis
    by (auto simp: preLock_def prefixed_def)
qed

lemma bookkeeping_no_Warn: "list_all bookkeeping as \<Longrightarrow> Warn m \<notin> set as \<and> Go \<notin> set as \<and> (\<forall>f. LockFn f \<notin> set as)"
  by (induction as) auto

lemma preLock_Returned_quiet:
  assumes "ctl_of (preLock opts pr ks oks skip p l) = Returned"
  shows "Warn m \<notin> set (trace_of (preLock opts pr ks oks skip p l))"
    and "count_list (trace_of (preLock opts pr ks oks skip p l)) Go = 0"
proof -
  from preLock_Returned_shape [OF assms] obtain as where
    as: "list_all bookkeeping as"
      "trace_of (preLock opts pr ks oks skip p l) = [] \<or>
       trace_of (preLock opts pr ks oks skip p l) = [Callers skip, GoidGet, LoMuLock, CurRange] @ as @ [LoMuUnlock]"
    by blast
  from as bookkeeping_no_Warn [OF as(1)] show "Warn m \<notin> set (trace_of (preLock opts pr ks oks skip p l))"
    by auto
  from as bookkeeping_no_Warn [OF as(1)] show "count_list (trace_of (preLock opts pr ks oks skip p l)) Go = 0"
    by (auto simp: count_list_0_iff)
qed

lemma lock_exit:
  assumes "ctl_of (lock opts pr ks oks env f p l) \<noteq> Returned"
  shows "\<not> Disable opts \<and> lock opts pr ks oks env f p l = preLock opts pr ks oks 4 p l"
  using assms by (auto simp: lock_def Let_def prefixed_def postLock_def split: if_splits)

lemma potentialDeadlock_quiet:
  "LockFn f \<notin> set (potentialDeadlock opts)" "Warn m \<notin> set (potentialDeadlock opts)"
  "CallOnPotentialDeadlock \<in> set (potentialDeadlock opts)"
  by (simp_all add: potentialDeadlock_def split: callback.splits)

lemmas ex_defs = returningOpts_def defaultOpts_def goroutine1_def goroutine2_def heldA_def
  preLock_def prefixed_def reported_def exited_def lock_def postLock_def Let_def

section \<open>Lemmas on what happens under the guard\<close>

lemma guard_never_across_iff:
  "guard_never_across as \<longleftrightarrow> (\<forall>a \<in> set (under_lo_mu as). \<not> provider_call a \<and> \<not> blocking_acquire a)"
  by (simp add: guard_never_across_def list_all_iff)

lemma bookkeeping_guard: "list_all bookkeeping (under_lo_mu as) \<Longrightarrow> guard_never_across as"
  unfolding guard_never_across_iff list_all_iff using bookkeeping_harmless by blast

lemma under_lo_mu_postLock: "under_lo_mu (trace_of (postLock pr skip p l)) = [CurSet p]"
  by (simp add: postLock_def under_lo_mu_def)

lemma under_lo_mu_postUnlock: "under_lo_mu (trace_of (postUnlock p l)) = [CurDelete p]"
  by (simp add: postUnlock_def under_lo_mu_def)

lemma under_lo_mu_unlock: "list_all bookkeeping (under_lo_mu (trace_of (unlock opts u m l)))"
  by (simp add: unlock_def postUnlock_def under_lo_mu_def prefixed_def)

lemma lock_Returned_under:
  assumes "ctl_of (lock opts pr ks oks env f p l) = Returned"
  shows "list_all bookkeeping (under_lo_mu (trace_of (lock opts pr ks oks env f p l)))"
proof (cases "Disable opts")
  case True
  then show ?thesis by (simp add: lock_def under_lo_mu_def)
next
  case False
  let ?r = "preLock opts pr ks oks 4 p l"
  from assms False have ret: "ctl_of ?r = Returned"
    by (auto simp: lock_def Let_def split: if_splits)
  from preLock_Returned [OF ret] have
    pre: "list_all bookkeeping (while_held LoMuLock LoMuUnlock False (trace_of ?r))"
      "held_after LoMuLock LoMuUnlock False (trace_of ?r) = False"
    by (simp_all add: under_lo_mu_def)
  show ?thesis
    using False ret pre
    by (simp add: lock_def Let_def under_lo_mu_def prefixed_def postLock_def while_held_append held_after_append)
qed

lemma lock_exit_under:
  assumes "ctl_of (lock opts pr ks oks env f p l) \<noteq> Returned"
  shows "list_all (\<lambda>a. \<not> blocking_acquire a) (under_lo_mu (trace_of (lock opts pr ks oks env f p l)))"
proof -
  from lock_exit [OF assms] have eq: "lock opts pr ks oks env f p l = preLock opts pr ks oks 4 p l" by simp
  with assms have ne: "ctl_of (preLock opts pr ks oks 4 p l) \<noteq> Returned" by simp
  from preLock_exit [OF ne] obtain as where
    as: "trace_of (preLock opts pr ks oks 4 p l) = [Callers 4, GoidGet, LoMuLock, CurRange] @ as @ potentialDeadlock opts"
      "\<forall>f. LockFn f \<notin> set as"
    by blast
  have "\<forall>a \<in> set (trace_of (preLock opts pr ks oks 4 p l)). \<not> blocking_acquire a"
  proof
    fix a assume "a \<in> set (trace_of (preLock opts pr ks oks 4 p l))"
    then have "a \<in> {Callers 4, GoidGet, LoMuLock, CurRange} \<or> a \<in> set as \<or> a \<in> {CallOnPotentialDeadlock, Fatal}"
      unfolding as(1) by (auto simp: potentialDeadlock_def split: callback.splits)
    with as(2) show "\<not> blocking_acquire a" by (cases a) auto
  qed
  moreover have "set (under_lo_mu tr) \<subseteq> set tr" for tr :: "'a action list"
  proof -
    have "set (while_held lk ul h tr) \<subseteq> set tr" for lk ul :: "'a action" and h
      by (induction tr arbitrary: h) auto
    then show ?thesis by (simp add: under_lo_mu_def)
  qed
  ultimately show ?thesis unfolding eq list_all_iff by blast
qed

lemma preLock_exit_rendering:
  assumes "ctl_of (preLock opts pr ks oks skip p l) \<noteq> Returned"
  shows "PrintStack (callers pr skip) \<in> set (under_lo_mu (trace_of (preLock opts pr ks oks skip p l)))"
proof -
  let ?stk = "callers pr skip"
  have en: "\<not> DisableLockOrderDetection opts" using assms by (auto simp: preLock_def)
  have "PrintStack ?stk \<in> set (trace_of (preLock_loop opts oks ?stk g p ks l))"
    if "ctl_of (preLock_loop opts oks ?stk g p ks l) \<noteq> Returned" for g
    using that
    by (induction ks arbitrary: l)
       (auto simp: reported_def prefixed_def recursiveReport_def inversionReport_def split: option.splits if_splits)
  with assms en have ps: "PrintStack ?stk \<in> set (trace_of (preLock_loop opts oks ?stk (goid_Get pr) p ks l))"
    by (simp add: preLock_def prefixed_def)
  from preLock_exit [OF assms] obtain as where
    as: "trace_of (preLock opts pr ks oks skip p l) = [Callers skip, GoidGet, LoMuLock, CurRange] @ as @ potentialDeadlock opts"
      "LoMuLock \<notin> set as" "LoMuUnlock \<notin> set as" by blast
  have pd: "LoMuLock \<notin> set (potentialDeadlock opts :: 'a action list)" "LoMuUnlock \<notin> set (potentialDeadlock opts :: 'a action list)"
      "PrintStack ?stk \<notin> set (potentialDeadlock opts :: 'a action list)"
    by (simp_all add: potentialDeadlock_def split: callback.splits)
  have u: "under_lo_mu (trace_of (preLock opts pr ks oks skip p l)) = CurRange # as @ potentialDeadlock opts"
    unfolding as(1) under_lo_mu_def using as(2,3) pd(1,2)
    by (simp add: while_held_append held_after_append while_held_untouched held_after_untouched)
  from ps en as(1) have "PrintStack ?stk \<in> set (as @ potentialDeadlock opts)"
    by (simp add: preLock_def prefixed_def)
  with u show ?thesis by simp
qed

lemma preLock_exit_across:
  assumes "ctl_of (preLock opts pr ks oks skip p l) \<noteq> Returned"
  shows "\<not> guard_never_across (trace_of (preLock opts pr ks oks skip p l))"
  using preLock_exit_rendering [OF assms] unfolding guard_never_across_iff by force

lemma watchdog_quiet_under:
  assumes "\<forall>c. snd (watchdog opts wpr ptr n rs) \<noteq> Exited c"
  shows "list_all bookkeeping (under_lo_mu (fst (watchdog opts wpr ptr n rs)))"
proof -
  from watchdog_shape [of opts wpr ptr n rs] assms obtain k where
    "fst (watchdog opts wpr ptr n rs) = rearmed opts ptr k @ [NewTimer (DeadlockTimeout opts), DeferStop]
     \<or> fst (watchdog opts wpr ptr n rs)
            = rearmed opts ptr k @ [NewTimer (DeadlockTimeout opts), DeferStop, RecvChan] @ replicate (Suc (n + k)) TimerStop"
    by auto
  moreover have "while_held LoMuLock LoMuUnlock False (replicate j (TimerStop :: 'a action)) = []" for j
    by (induction j) simp_all
  ultimately show ?thesis
    unfolding under_lo_mu_def
    by (auto simp: while_lo_rearmed list_all_replicate_bk)
qed

lemma watchdog_exit_provider:
  assumes "snd (watchdog opts wpr ptr n rs) = Exited c"
  shows "GoidGet \<in> set (under_lo_mu (fst (watchdog opts wpr ptr n rs)))
       \<and> Callers 2 \<in> set (under_lo_mu (fst (watchdog opts wpr ptr n rs)))
       \<and> PrintStack (callers wpr 2) \<in> set (under_lo_mu (fst (watchdog opts wpr ptr n rs)))
       \<and> Stacks \<in> set (under_lo_mu (fst (watchdog opts wpr ptr n rs)))"
proof -
  from watchdog_shape [of opts wpr ptr n rs] assms obtain k l oks grs prev where
    sh: "fst (watchdog opts wpr ptr n rs)
            = rearmed opts ptr k @ [NewTimer (DeadlockTimeout opts), DeferStop, RecvTimer, LoMuLock, CurGet ptr]
              @ timeoutReport opts wpr ptr l oks grs prev"
    by auto
  have "under_lo_mu (fst (watchdog opts wpr ptr n rs))
          = replicate k (CurGet ptr) @ CurGet ptr # [OptsMuLock, Warn Header] @ timeoutBody opts wpr ptr l oks grs prev @ [OptsMuUnlock]"
    unfolding sh under_lo_mu_def while_lo_rearmed
    by (simp add: under_lo_timeoutReport)
  moreover have "GoidGet \<in> set (timeoutBody opts wpr ptr l oks grs prev)
      \<and> Callers 2 \<in> set (timeoutBody opts wpr ptr l oks grs prev)
      \<and> PrintStack (callers wpr 2) \<in> set (timeoutBody opts wpr ptr l oks grs prev)
      \<and> Stacks \<in> set (timeoutBody opts wpr ptr l oks grs prev)"
    by (simp add: timeoutBody_def)
  ultimately show ?thesis by simp
qed

lemma watchdog_exit_across:
  assumes "snd (watchdog opts wpr ptr n rs) = Exited c"
  shows "\<not> guard_never_across (fst (watchdog opts wpr ptr n rs))"
  using watchdog_exit_provider [OF assms] unfolding guard_never_across_iff by force

section \<open>Lemmas on the size of the order table\<close>

lemma len_fmempty [simp]: "len fmempty = 0"
  by (simp add: len_def)

lemma len_nonneg [simp]: "0 \<le> len m"
  by (simp add: len_def)

lemma len_fmupd:
  "len (fmupd k v m) = (if fmlookup m k = None then len m + 1 else len m)"
  by (auto simp: len_def fcard_finsert_if fmlookup_dom_iff)

lemma len_fmupd_pos: "0 < len (fmupd k v m)"
  by (simp add: len_def fcard_finsert)

lemma recordEdge_order:
  "order (recordEdge opts b p bs stk l)
     = (if len (fmupd (BeforeAfter b p) \<lparr>before = stack bs, after = stk\<rparr> (order l)) = MaxMapSize opts
        then fmempty else fmupd (BeforeAfter b p) \<lparr>before = stack bs, after = stk\<rparr> (order l))"
  by (simp add: recordEdge_def Let_def)

lemma recordEdge_bound:
  assumes "len (order l) < MaxMapSize opts"
  shows "len (order (recordEdge opts b p bs stk l)) < MaxMapSize opts"
  using assms len_nonneg [of "order l"] by (auto simp: recordEdge_order len_fmupd simp del: len_nonneg split: if_splits)

lemma preLock_loop_bound:
  "len (order l) < MaxMapSize opts \<Longrightarrow>
     len (order (state_of (preLock_loop opts oks stk g p ks l))) < MaxMapSize opts"
proof (induction ks arbitrary: l)
  case Nil
  then show ?case by simp
next
  case (Cons b ks)
  from Cons.prems have rb: "len (order (recordEdge opts b p bs stk l)) < MaxMapSize opts" for bs
    by (rule recordEdge_bound)
  show ?case
    using Cons.prems Cons.IH [OF Cons.prems] Cons.IH [OF rb]
    by (auto simp: reported_def prefixed_def split: option.splits)
qed

lemma guarded_bound:
  "len (order l) < MaxMapSize opts \<Longrightarrow> len (order (state_of (guarded_result opts s l))) < MaxMapSize opts"
  by (cases s) (auto simp: preLock_def prefixed_def postLock_def postUnlock_def preLock_loop_bound)

lemma run_bound:
  "run opts ss l = Some l' \<Longrightarrow> len (order l) < MaxMapSize opts \<Longrightarrow> len (order l') < MaxMapSize opts"
proof (induction ss arbitrary: l)
  case Nil
  then show ?case by simp
next
  case (Cons s ss)
  from Cons.prems(1) have "run opts ss (state_of (guarded_result opts s l)) = Some l'"
    by (simp split: if_splits)
  from Cons.IH [OF this guarded_bound [OF Cons.prems(2)]] show ?case .
qed

section \<open>Lemmas on the held-map\<close>

lemma recordEdgeTrace_OrderSet:
  "OrderSet k \<in> set (recordEdgeTrace opts b p bs stk l) \<Longrightarrow> k = BeforeAfter b p"
  by (auto simp: recordEdgeTrace_def split: if_splits)

lemma report_no_OrderSet:
  "OrderSet k \<notin> set (recursiveReport oks l stk g p bs)" "OrderSet k \<notin> set (inversionReport oks l stk p bs s)"
  "OrderSet k \<notin> set (potentialDeadlock opts)"
  using recursiveReport_part [of "OrderSet k" oks l stk g p bs] inversionReport_part [of "OrderSet k" oks l stk p bs s]
  by (auto simp: report_part_def potentialDeadlock_def split: callback.splits)

lemma preLock_loop_no_edge_from_absent:
  "fmlookup (cur l) m = None \<Longrightarrow> OrderSet (BeforeAfter m p) \<notin> set (trace_of (preLock_loop opts oks stk g p ks l))"
proof (induction ks arbitrary: l)
  case Nil
  then show ?case by simp
next
  case (Cons b ks)
  have rec: "OrderSet (BeforeAfter m p) \<notin> set (trace_of (preLock_loop opts oks stk g p ks (recordEdge opts b p bs stk l)))" for bs
    using Cons.IH [of "recordEdge opts b p bs stk l"] Cons.prems by simp
  show ?case
  proof (cases "fmlookup (cur l) b")
    case None
    then show ?thesis using Cons by simp
  next
    case (Some bs)
    with Cons.prems have "b \<noteq> m" by auto
    then have "OrderSet (BeforeAfter m p) \<notin> set (recordEdgeTrace opts b p bs stk l)"
      using recordEdgeTrace_OrderSet [of "BeforeAfter m p" opts b p bs stk l] by auto
    then show ?thesis
      using Some rec [of bs] Cons.IH [OF Cons.prems] report_no_OrderSet [of "BeforeAfter m p"]
      by (auto simp: reported_def prefixed_def split: option.splits)
  qed
qed

lemma preLock_no_edge_from_absent:
  "fmlookup (cur l) m = None \<Longrightarrow> OrderSet (BeforeAfter m p) \<notin> set (trace_of (preLock opts pr ks oks skip p l))"
  using preLock_loop_no_edge_from_absent [of l m p opts oks "callers pr skip" "goid_Get pr" ks]
  by (simp add: preLock_def prefixed_def)

lemma lock_Returned_cur:
  assumes "\<not> Disable opts" "ctl_of (lock opts pr ks oks env f m l) = Returned"
  shows "fmlookup (cur (state_of (lock opts pr ks oks env f m l))) m = Some \<lparr>stack = callers pr 4, gid = goid_Get pr\<rparr>"
  using assms by (auto simp: lock_def Let_def prefixed_def postLock_def split: if_splits)

lemma unlock_cur:
  "\<not> Disable opts \<Longrightarrow> fmlookup (cur (state_of (unlock opts u m l))) m = None"
  by (simp add: unlock_def prefixed_def postUnlock_def)

section \<open>The example scenario, evaluated\<close>

lemmas run_defs = twoOpts_def defaultOpts_def goroutine1_def goroutine2_def lockA_def lockB_def lockC_def
  preLock_def prefixed_def reported_def postLock_def postUnlock_def recordEdge_def recordEdgeTrace_def
  len_fmupd newLockOrder_def Let_def

lemma run_firstAB: "run twoOpts firstAB newLockOrder = Some afterAB"
  by (simp add: firstAB_def afterAB_def run_defs)

lemma run_laterBC: "run twoOpts laterBC afterAB = Some afterBC"
  apply (simp add: laterBC_def afterAB_def afterBC_def run_defs)
  apply (rule fmap_ext)
  apply simp
  done

section \<open>Lemmas on the watchdog\<close>

lemma count_replicate_other: "a \<noteq> b \<Longrightarrow> count_list (replicate j a) b = 0"
  by (induction j) simp_all

lemma count_rearmed_alone: "count_list (rearmed opts ptr k) (Warn m) = 0"
  using count_rearmed [of opts ptr k "[]" m] by simp

lemma watchdog_count: "count_list (fst (watchdog opts wpr ptr n rs)) (Warn Header) \<le> 1"
proof -
  from watchdog_shape [of opts wpr ptr n rs] obtain k where
    "fst (watchdog opts wpr ptr n rs) = rearmed opts ptr k @ [NewTimer (DeadlockTimeout opts), DeferStop]
     \<or> fst (watchdog opts wpr ptr n rs)
            = rearmed opts ptr k @ [NewTimer (DeadlockTimeout opts), DeferStop, RecvChan] @ replicate (Suc (n + k)) TimerStop
     \<or> (\<exists>l oks grs prev. fst (watchdog opts wpr ptr n rs)
            = rearmed opts ptr k @ [NewTimer (DeadlockTimeout opts), DeferStop, RecvTimer, LoMuLock, CurGet ptr]
              @ timeoutReport opts wpr ptr l oks grs prev)"
    by blast
  then show ?thesis
    by (auto simp: count_rearmed_alone timeoutReport_count count_replicate_other simp del: replicate_Suc)
qed

lemma watchdog_report_held:
  assumes "Warn Header \<in> set (fst (watchdog opts wpr ptr n rs))"
  shows "\<exists>g oks' grs prev. Timer g oks' grs \<in> set rs \<and> fmlookup (cur g) ptr = Some prev"
proof (rule ccontr)
  assume no: "\<not> ?thesis"
  with watchdog_shape [of opts wpr ptr n rs] obtain k where
    "fst (watchdog opts wpr ptr n rs) = rearmed opts ptr k @ [NewTimer (DeadlockTimeout opts), DeferStop]
     \<or> fst (watchdog opts wpr ptr n rs)
            = rearmed opts ptr k @ [NewTimer (DeadlockTimeout opts), DeferStop, RecvChan] @ replicate (Suc (n + k)) TimerStop"
    by blast
  moreover have "Warn Header \<notin> set (rearmed opts ptr k)"
    using set_rearmed [of "Warn Header" opts ptr k] by (auto simp: rearm_def)
  ultimately show False using assms by auto
qed

section \<open>Lemmas on what the loop of preLock detects\<close>

lemma range_order_mem: "range_order ks m \<Longrightarrow> fmlookup m k = Some v \<Longrightarrow> k \<in> set ks"
  by (metis fmdomI fset_of_list_elem range_order_def)

lemma recordEdgeTrace_no_reset:
  "OrderReset \<notin> set (recordEdgeTrace opts b p bs stk l) \<Longrightarrow>
     order (recordEdge opts b p bs stk l) = fmupd (BeforeAfter b p) \<lparr>before = stack bs, after = stk\<rparr> (order l)"
  by (auto simp: recordEdgeTrace_def recordEdge_order split: if_splits)

lemma recordEdge_lookup_other:
  "b \<noteq> p \<Longrightarrow> fmlookup (order (recordEdge opts b p bs stk l)) (BeforeAfter p c) \<noteq> None \<Longrightarrow>
     fmlookup (order l) (BeforeAfter p c) \<noteq> None"
  by (auto simp: recordEdge_order split: if_splits)

text \<open>One round of the loop of \<open>preLock\<close>, case by case.\<close>

lemma loop_skip:
  "fmlookup (cur l) b = None \<Longrightarrow> preLock_loop opts oks stk g p (b # ks) l = preLock_loop opts oks stk g p ks l"
  by simp

lemma loop_recursive:
  "fmlookup (cur l) p = Some bs \<Longrightarrow> gid bs = g \<Longrightarrow>
     preLock_loop opts oks stk g p (p # ks) l = reported opts l (recursiveReport oks l stk g p bs)"
  by simp

lemma loop_foreign:
  "fmlookup (cur l) b = Some bs \<Longrightarrow> gid bs \<noteq> g \<Longrightarrow>
     preLock_loop opts oks stk g p (b # ks) l = preLock_loop opts oks stk g p ks l"
  by simp

lemma loop_inversion:
  "fmlookup (cur l) b = Some bs \<Longrightarrow> b \<noteq> p \<Longrightarrow> gid bs = g \<Longrightarrow> fmlookup (order l) (BeforeAfter p b) = Some s \<Longrightarrow>
     preLock_loop opts oks stk g p (b # ks) l
       = reported opts l (OrderGet (BeforeAfter p b) # inversionReport oks l stk p bs s)"
  by simp

lemma loop_fresh:
  "fmlookup (cur l) b = Some bs \<Longrightarrow> b \<noteq> p \<Longrightarrow> gid bs = g \<Longrightarrow> fmlookup (order l) (BeforeAfter p b) = None \<Longrightarrow>
     preLock_loop opts oks stk g p (b # ks) l
       = prefixed (OrderGet (BeforeAfter p b) # recordEdgeTrace opts b p bs stk l)
           (preLock_loop opts oks stk g p ks (recordEdge opts b p bs stk l))"
  by simp

lemma loop_cases:
  obtains (skip) "fmlookup (cur l) b = None"
  | (recursive) bs where "b = p" "fmlookup (cur l) b = Some bs" "gid bs = g"
  | (foreign) bs where "fmlookup (cur l) b = Some bs" "gid bs \<noteq> g"
  | (inversion) bs s where "fmlookup (cur l) b = Some bs" "b \<noteq> p" "gid bs = g" "fmlookup (order l) (BeforeAfter p b) = Some s"
  | (fresh) bs where "fmlookup (cur l) b = Some bs" "b \<noteq> p" "gid bs = g" "fmlookup (order l) (BeforeAfter p b) = None"
  by (cases "fmlookup (cur l) b"; cases "fmlookup (order l) (BeforeAfter p b)"; cases "b = p") auto

lemma reported_exit [simp]: "ctl_of (reported opts l as) \<noteq> Returned"
  by (simp add: reported_def)

lemma preLock_loop_inversion_found:
  assumes "fmlookup (cur l) B = Some bs" "gid bs = g" "B \<noteq> A" "B \<in> set ks"
    "fmlookup (order l) (BeforeAfter A B) \<noteq> None"
    "OrderReset \<notin> set (trace_of (preLock_loop opts oks stk g A ks l))"
  shows "ctl_of (preLock_loop opts oks stk g A ks l) \<noteq> Returned"
  using assms
proof (induction ks arbitrary: l)
  case Nil
  then show ?case by simp
next
  case (Cons b ks)
  show ?case
  proof (cases rule: loop_cases [where l = l and b = b and p = A and g = g])
    case skip
    with Cons.prems(1,4) have "B \<in> set ks" by auto
    with Cons.IH [of l] Cons.prems show ?thesis unfolding loop_skip [OF skip] by simp
  next
    case (recursive bs')
    then show ?thesis using loop_recursive [of l A bs' g opts oks stk ks] by simp
  next
    case (foreign bs')
    with Cons.prems(1,2,4) have "B \<in> set ks" by auto
    with Cons.IH [of l] Cons.prems show ?thesis unfolding loop_foreign [OF foreign] by simp
  next
    case (inversion bs' s)
    show ?thesis unfolding loop_inversion [OF inversion] by simp
  next
    case (fresh bs')
    let ?l' = "recordEdge opts b A bs' stk l"
    note eq = loop_fresh [OF fresh, of opts oks stk ks]
    from Cons.prems(6) have nr: "OrderReset \<notin> set (recordEdgeTrace opts b A bs' stk l)"
      and nr': "OrderReset \<notin> set (trace_of (preLock_loop opts oks stk g A ks ?l'))"
      unfolding eq by (simp_all add: prefixed_def)
    from fresh(4) Cons.prems(5) have "b \<noteq> B" by auto
    with Cons.prems(4) have mem: "B \<in> set ks" by auto
    have ord: "fmlookup (order ?l') (BeforeAfter A B) \<noteq> None"
      using recordEdgeTrace_no_reset [OF nr] Cons.prems(5) fresh(2) by simp
    have "ctl_of (preLock_loop opts oks stk g A ks ?l') \<noteq> Returned"
      using Cons.IH [of ?l'] Cons.prems(1,2,3) mem ord nr' by simp
    then show ?thesis unfolding eq by (simp add: prefixed_def)
  qed
qed

lemma preLock_loop_recursion_found:
  assumes "fmlookup (cur l) L = Some bs" "gid bs = g" "L \<in> set ks"
  shows "ctl_of (preLock_loop opts oks stk g L ks l) \<noteq> Returned"
  using assms
proof (induction ks arbitrary: l)
  case Nil
  then show ?case by simp
next
  case (Cons b ks)
  show ?case
  proof (cases rule: loop_cases [where l = l and b = b and p = L and g = g])
    case skip
    with Cons.prems(1,3) have "L \<in> set ks" by auto
    with Cons.IH [of l] Cons.prems show ?thesis unfolding loop_skip [OF skip] by simp
  next
    case (recursive bs')
    then show ?thesis using loop_recursive [of l L bs' g opts oks stk ks] by simp
  next
    case (foreign bs')
    with Cons.prems have "L \<in> set ks" by auto
    with Cons.IH [of l] Cons.prems show ?thesis unfolding loop_foreign [OF foreign] by simp
  next
    case (inversion bs' s)
    show ?thesis unfolding loop_inversion [OF inversion] by simp
  next
    case (fresh bs')
    with Cons.prems have "L \<in> set ks" by auto
    then have "ctl_of (preLock_loop opts oks stk g L ks (recordEdge opts b L bs' stk l)) \<noteq> Returned"
      using Cons.IH [of "recordEdge opts b L bs' stk l"] Cons.prems(1,2) by simp
    then show ?thesis unfolding loop_fresh [OF fresh] by (simp add: prefixed_def)
  qed
qed

lemma reported_Warn:
  "Warn m \<in> set (trace_of (reported opts l as)) \<longleftrightarrow> Warn m \<in> set as"
  by (simp add: reported_def potentialDeadlock_def split: callback.splits)

lemma recordEdgeTrace_Warn: "Warn m \<notin> set (recordEdgeTrace opts b p bs stk l)"
  by (simp add: recordEdgeTrace_def)

lemma preLock_loop_recursive_only_if_held:
  "Warn RecursiveLocking \<in> set (trace_of (preLock_loop opts oks stk g p ks l)) \<Longrightarrow>
     \<exists>bs. fmlookup (cur l) p = Some bs \<and> gid bs = g"
proof (induction ks arbitrary: l)
  case Nil
  then show ?case by simp
next
  case (Cons b ks)
  show ?case
  proof (cases rule: loop_cases [where l = l and b = b and p = p and g = g])
    case skip
    with Cons show ?thesis by simp
  next
    case (recursive bs')
    then show ?thesis by blast
  next
    case (foreign bs')
    with Cons.prems Cons.IH [of l] show ?thesis unfolding loop_foreign [OF foreign] by simp
  next
    case (inversion bs' s)
    from Cons.prems have False
      unfolding loop_inversion [OF inversion] reported_Warn
      using inversionReport_marks(2) [of oks l stk p bs' s] by simp
    then show ?thesis ..
  next
    case (fresh bs')
    from Cons.prems have "Warn RecursiveLocking \<in> set (trace_of (preLock_loop opts oks stk g p ks (recordEdge opts b p bs' stk l)))"
      unfolding loop_fresh [OF fresh] using recordEdgeTrace_Warn [of RecursiveLocking opts b p bs' stk l]
      by (simp add: prefixed_def)
    from Cons.IH [OF this] show ?thesis by simp
  qed
qed

lemma preLock_loop_inversion_only_if_edge:
  "Warn InconsistentLocking \<in> set (trace_of (preLock_loop opts oks stk g p ks l)) \<Longrightarrow>
     \<exists>b bs. b \<noteq> p \<and> fmlookup (cur l) b = Some bs \<and> gid bs = g \<and> fmlookup (order l) (BeforeAfter p b) \<noteq> None"
proof (induction ks arbitrary: l)
  case Nil
  then show ?case by simp
next
  case (Cons b ks)
  show ?case
  proof (cases rule: loop_cases [where l = l and b = b and p = p and g = g])
    case skip
    with Cons show ?thesis by simp
  next
    case (recursive bs')
    from Cons.prems have False
      using loop_recursive [of l p bs' g opts oks stk ks] recursive recursiveReport_marks(2) [of oks l stk g p bs']
      by (simp add: reported_Warn)
    then show ?thesis ..
  next
    case (foreign bs')
    with Cons.prems Cons.IH [of l] show ?thesis unfolding loop_foreign [OF foreign] by simp
  next
    case (inversion bs' s)
    then show ?thesis by blast
  next
    case (fresh bs')
    from Cons.prems have "Warn InconsistentLocking \<in> set (trace_of (preLock_loop opts oks stk g p ks (recordEdge opts b p bs' stk l)))"
      unfolding loop_fresh [OF fresh] using recordEdgeTrace_Warn [of InconsistentLocking opts b p bs' stk l]
      by (simp add: prefixed_def)
    from Cons.IH [OF this] obtain c cs where
      c: "c \<noteq> p" "fmlookup (cur l) c = Some cs" "gid cs = g"
        "fmlookup (order (recordEdge opts b p bs' stk l)) (BeforeAfter p c) \<noteq> None"
      by auto
    from fresh(2) c(4) have "fmlookup (order l) (BeforeAfter p c) \<noteq> None"
      by (rule recordEdge_lookup_other)
    with c show ?thesis by blast
  qed
qed

section \<open>Lemmas that lift the loop to lock\<close>

lemma lock_enabled_exit:
  "\<not> Disable opts \<Longrightarrow> ctl_of (preLock opts pr ks oks 4 p l) \<noteq> Returned \<Longrightarrow>
     lock opts pr ks oks env f p l = preLock opts pr ks oks 4 p l"
  by (simp add: lock_def Let_def)

lemma lock_trace_sub:
  "\<not> Disable opts \<Longrightarrow> set (trace_of (preLock opts pr ks oks 4 p l)) \<subseteq> set (trace_of (lock opts pr ks oks env f p l))"
  by (auto simp: lock_def Let_def prefixed_def)

lemma lock_Warn:
  "Warn m \<in> set (trace_of (lock opts pr ks oks env f p l)) \<Longrightarrow>
     Warn m \<in> set (trace_of (preLock opts pr ks oks 4 p l))"
  by (auto simp: lock_def Let_def prefixed_def postLock_def split: if_splits)

lemma preLock_trace_loop:
  "\<not> DisableLockOrderDetection opts \<Longrightarrow>
     trace_of (preLock opts pr ks oks skip p l)
       = [Callers skip, GoidGet, LoMuLock, CurRange] @ trace_of (preLock_loop opts oks (callers pr skip) (goid_Get pr) p ks l)
     \<and> ctl_of (preLock opts pr ks oks skip p l) = ctl_of (preLock_loop opts oks (callers pr skip) (goid_Get pr) p ks l)"
  by (simp add: preLock_def prefixed_def)

lemma lock_detected:
  assumes "\<not> Disable opts" "ctl_of (preLock opts pr ks oks 4 p l) \<noteq> Returned"
  shows "ctl_of (lock opts pr ks oks env f p l) \<noteq> Returned
       \<and> (\<forall>f'. LockFn f' \<notin> set (trace_of (lock opts pr ks oks env f p l)))
       \<and> CallOnPotentialDeadlock \<in> set (trace_of (lock opts pr ks oks env f p l))
       \<and> (Warn RecursiveLocking \<in> set (trace_of (lock opts pr ks oks env f p l))
           \<or> Warn InconsistentLocking \<in> set (trace_of (lock opts pr ks oks env f p l)))"
proof -
  note eq = lock_enabled_exit [OF assms, of env f]
  from preLock_exit [OF assms(2)] obtain as where
    as: "trace_of (preLock opts pr ks oks 4 p l) = [Callers 4, GoidGet, LoMuLock, CurRange] @ as @ potentialDeadlock opts"
      "\<forall>f. LockFn f \<notin> set as"
      "Warn RecursiveLocking \<in> set as \<or> Warn InconsistentLocking \<in> set as"
    by blast
  have pd: "CallOnPotentialDeadlock \<in> set (potentialDeadlock opts :: 'a action list)"
    "\<forall>f'. LockFn f' \<notin> set (potentialDeadlock opts :: 'a action list)"
    by (simp_all add: potentialDeadlock_def split: callback.splits)
  show ?thesis unfolding eq using assms(2) as pd by auto
qed

lemma run_firstAB_default: "run defaultOpts firstAB newLockOrder = Some afterAB"
  by (simp add: firstAB_def afterAB_def run_defs)

lemmas report_defs = inversionReport_def recursiveReport_def other_def potentialDeadlock_def exited_def
  lock_def Mutex_Lock_def

section \<open>Lemmas on the first finding in range order\<close>

lemma visited_before_Cons:
  "visited_before (k # ks) b = (if k = b then [] else k # visited_before ks b)"
  by (simp add: visited_before_def)

lemma visited_before_sub: "set (visited_before ks b) \<subseteq> set ks"
  unfolding visited_before_def using set_takeWhileD by fastforce

lemma held_by_recordEdge [simp]: "held_by (recordEdge opts b p bs stk l) g c = held_by l g c"
  by (simp add: held_by_def)

lemma prefixed_state [simp]: "state_of (prefixed as r) = state_of r"
  by (simp add: prefixed_def)

lemma prefixed_Warn:
  "(\<forall>m. Warn m \<notin> set as) \<Longrightarrow> Warn m \<in> set (trace_of (prefixed as r)) \<longleftrightarrow> Warn m \<in> set (trace_of r)"
  by (auto simp: prefixed_def)

lemma fresh_prefix_quiet: "\<forall>m. Warn m \<notin> set (OrderGet k # recordEdgeTrace opts b p bs stk l)"
  by (simp add: recordEdgeTrace_def)

lemma inversion_met_first_Cons_skip:
  assumes "k \<noteq> p" "k \<notin> set ks" "\<not> held_by l g k"
    "\<And>xs. preLock_loop opts oks stk g p (k # xs) l = preLock_loop opts oks stk g p xs l"
  shows "inversion_met_first opts oks stk g p (k # ks) l = inversion_met_first opts oks stk g p ks l"
proof -
  have "fmlookup (table_when_visited opts oks stk g p (k # ks) l b) (BeforeAfter p b)
      = fmlookup (table_when_visited opts oks stk g p ks l b) (BeforeAfter p b)"
    if "b \<in> set (visited_before ks p)" for b
  proof -
    from that visited_before_sub [of ks p] assms(2) have "k \<noteq> b" by auto
    then show ?thesis by (simp add: table_when_visited_def visited_before_Cons assms(4) del: preLock_loop.simps)
  qed
  then show ?thesis
    using assms(1,3) by (auto simp: inversion_met_first_def visited_before_Cons list_ex_iff)
qed

lemma inversion_met_first_Cons_fresh:
  assumes "k \<noteq> p" "k \<notin> set ks" "fmlookup (order l) (BeforeAfter p k) = None"
    "\<And>xs. preLock_loop opts oks stk g p (k # xs) l
        = prefixed (OrderGet (BeforeAfter p k) # recordEdgeTrace opts k p bs stk l)
            (preLock_loop opts oks stk g p xs (recordEdge opts k p bs stk l))"
  shows "inversion_met_first opts oks stk g p (k # ks) l
       = inversion_met_first opts oks stk g p ks (recordEdge opts k p bs stk l)"
proof -
  have "fmlookup (table_when_visited opts oks stk g p (k # ks) l b) (BeforeAfter p b)
      = fmlookup (table_when_visited opts oks stk g p ks (recordEdge opts k p bs stk l) b) (BeforeAfter p b)"
    if "b \<in> set (visited_before ks p)" for b
  proof -
    from that visited_before_sub [of ks p] assms(2) have "k \<noteq> b" by auto
    then show ?thesis by (simp add: table_when_visited_def visited_before_Cons assms(4) del: preLock_loop.simps)
  qed
  moreover have "fmlookup (table_when_visited opts oks stk g p (k # ks) l k) (BeforeAfter p k) = None"
    using assms(3) by (simp add: table_when_visited_def visited_before_Cons)
  ultimately show ?thesis
    using assms(1) by (auto simp: inversion_met_first_def visited_before_Cons list_ex_iff)
qed

lemma preLock_loop_first_finding:
  assumes "distinct ks" "L \<in> set ks" "fmlookup (cur l) L = Some bs" "gid bs = g"
  shows "(Warn InconsistentLocking \<in> set (trace_of (preLock_loop opts oks stk g L ks l))
            \<longleftrightarrow> inversion_met_first opts oks stk g L ks l)
       \<and> (Warn RecursiveLocking \<in> set (trace_of (preLock_loop opts oks stk g L ks l))
            \<longleftrightarrow> \<not> inversion_met_first opts oks stk g L ks l)"
  using assms
proof (induction ks arbitrary: l)
  case Nil
  then show ?case by simp
next
  case (Cons k ks)
  from Cons.prems(1) have d: "distinct ks" and nk: "k \<notin> set ks" by simp_all
  show ?case
  proof (cases "k = L")
    case True
    have "preLock_loop opts oks stk g L (k # ks) l = reported opts l (recursiveReport oks l stk g L bs)"
      unfolding True using Cons.prems(3,4) by (rule loop_recursive)
    moreover have "\<not> inversion_met_first opts oks stk g L (k # ks) l"
      by (simp add: True inversion_met_first_def visited_before_Cons)
    ultimately show ?thesis
      using recursiveReport_marks [of oks l stk g L bs] by (simp add: reported_Warn)
  next
    case False
    with Cons.prems(2) have mem: "L \<in> set ks" by simp
    show ?thesis
    proof (cases rule: loop_cases [where l = l and b = k and p = L and g = g])
      case skip
      then have nh: "\<not> held_by l g k" by (simp add: held_by_def)
      have eq: "preLock_loop opts oks stk g L (k # xs) l = preLock_loop opts oks stk g L xs l" for xs
        using skip by (rule loop_skip)
      show ?thesis
        unfolding inversion_met_first_Cons_skip [OF False nk nh eq] eq
        using Cons.IH [OF d mem Cons.prems(3,4)] .
    next
      case (recursive bs')
      with False show ?thesis by simp
    next
      case (foreign bs')
      then have nh: "\<not> held_by l g k" by (simp add: held_by_def)
      have eq: "preLock_loop opts oks stk g L (k # xs) l = preLock_loop opts oks stk g L xs l" for xs
        using foreign by (rule loop_foreign)
      show ?thesis
        unfolding inversion_met_first_Cons_skip [OF False nk nh eq] eq
        using Cons.IH [OF d mem Cons.prems(3,4)] .
    next
      case (inversion bs' s)
      have "inversion_met_first opts oks stk g L (k # ks) l"
        using inversion False
        by (simp add: inversion_met_first_def visited_before_Cons table_when_visited_def held_by_def)
      then show ?thesis
        unfolding loop_inversion [OF inversion]
        using inversionReport_marks [of oks l stk L bs' s] by (simp add: reported_Warn)
    next
      case (fresh bs')
      let ?l' = "recordEdge opts k L bs' stk l"
      have eq: "preLock_loop opts oks stk g L (k # xs) l
          = prefixed (OrderGet (BeforeAfter L k) # recordEdgeTrace opts k L bs' stk l)
              (preLock_loop opts oks stk g L xs ?l')" for xs
        using fresh by (rule loop_fresh)
      have c: "fmlookup (cur ?l') L = Some bs" using Cons.prems(3) by simp
      show ?thesis
        unfolding inversion_met_first_Cons_fresh [OF False nk fresh(4) eq] eq
          prefixed_Warn [OF fresh_prefix_quiet]
        using Cons.IH [OF d mem c Cons.prems(4)] .
    qed
  qed
qed

lemma preLock_loop_edges_from_p:
  "fmlookup (order (state_of (preLock_loop opts oks stk g p ks l))) (BeforeAfter p c) \<noteq> None \<Longrightarrow>
     fmlookup (order l) (BeforeAfter p c) \<noteq> None"
proof (induction ks arbitrary: l)
  case Nil
  then show ?case by simp
next
  case (Cons k ks)
  show ?case
  proof (cases rule: loop_cases [where l = l and b = k and p = p and g = g])
    case skip
    with Cons show ?thesis by simp
  next
    case (recursive bs')
    with Cons.prems show ?thesis using loop_recursive [of l p bs' g opts oks stk ks] by (simp add: reported_def)
  next
    case (foreign bs')
    with Cons.prems Cons.IH [of l] show ?thesis unfolding loop_foreign [OF foreign] by simp
  next
    case (inversion bs' s)
    with Cons.prems show ?thesis unfolding loop_inversion [OF inversion] by (simp add: reported_def)
  next
    case (fresh bs')
    from Cons.prems have "fmlookup (order (state_of (preLock_loop opts oks stk g p ks (recordEdge opts k p bs' stk l)))) (BeforeAfter p c) \<noteq> None"
      unfolding loop_fresh [OF fresh] by simp
    from Cons.IH [OF this] fresh(2) show ?thesis by (rule recordEdge_lookup_other [rotated])
  qed
qed

lemma preLock_loop_trace_prefix:
  "a \<noteq> LoMuUnlock \<Longrightarrow> a \<in> set (trace_of (preLock_loop opts oks stk g p xs l)) \<Longrightarrow>
     a \<in> set (trace_of (preLock_loop opts oks stk g p (xs @ ys) l))"
proof (induction xs arbitrary: l)
  case Nil
  then show ?case by simp
next
  case (Cons k xs)
  show ?case
  proof (cases rule: loop_cases [where l = l and b = k and p = p and g = g])
    case skip
    with Cons show ?thesis by simp
  next
    case (recursive bs')
    with Cons.prems show ?thesis
      using loop_recursive [of l p bs' g opts oks stk xs] loop_recursive [of l p bs' g opts oks stk "xs @ ys"] by simp
  next
    case (foreign bs')
    from Cons.prems Cons.IH [of l] show ?thesis
      using loop_foreign [OF foreign, of opts oks stk p xs] loop_foreign [OF foreign, of opts oks stk p "xs @ ys"] by simp
  next
    case (inversion bs' s)
    with Cons.prems show ?thesis
      using loop_inversion [OF inversion, of opts oks stk xs] loop_inversion [OF inversion, of opts oks stk "xs @ ys"] by simp
  next
    case (fresh bs')
    from Cons.prems Cons.IH [of "recordEdge opts k p bs' stk l"] show ?thesis
      using loop_fresh [OF fresh, of opts oks stk xs] loop_fresh [OF fresh, of opts oks stk "xs @ ys"]
      by (auto simp: prefixed_def)
  qed
qed

lemma preLock_loop_no_reset_keeps:
  "OrderReset \<notin> set (trace_of (preLock_loop opts oks stk g p ks l)) \<Longrightarrow> fmlookup (order l) e \<noteq> None \<Longrightarrow>
     fmlookup (order (state_of (preLock_loop opts oks stk g p ks l))) e \<noteq> None"
proof (induction ks arbitrary: l)
  case Nil
  then show ?case by simp
next
  case (Cons k ks)
  show ?case
  proof (cases rule: loop_cases [where l = l and b = k and p = p and g = g])
    case skip
    with Cons show ?thesis by simp
  next
    case (recursive bs')
    with Cons.prems show ?thesis using loop_recursive [of l p bs' g opts oks stk ks] by (simp add: reported_def)
  next
    case (foreign bs')
    with Cons.prems Cons.IH [of l] show ?thesis unfolding loop_foreign [OF foreign] by simp
  next
    case (inversion bs' s)
    with Cons.prems show ?thesis unfolding loop_inversion [OF inversion] by (simp add: reported_def)
  next
    case (fresh bs')
    let ?l' = "recordEdge opts k p bs' stk l"
    from Cons.prems(1) have nr: "OrderReset \<notin> set (recordEdgeTrace opts k p bs' stk l)"
      and nr': "OrderReset \<notin> set (trace_of (preLock_loop opts oks stk g p ks ?l'))"
      unfolding loop_fresh [OF fresh] by (simp_all add: prefixed_def)
    have "fmlookup (order ?l') e \<noteq> None"
      using recordEdgeTrace_no_reset [OF nr] Cons.prems(2) by simp
    from Cons.IH [OF nr' this] show ?thesis unfolding loop_fresh [OF fresh] by simp
  qed
qed

lemma potentialDeadlock_eq:
  "potentialDeadlock opts = CallOnPotentialDeadlock # (if OnPotentialDeadlock opts = CbReturns then [Fatal] else [])"
  by (simp add: potentialDeadlock_def split: callback.splits)

lemma exited_eq:
  "exited opts = (if OnPotentialDeadlock opts = CbReturns then ExitedInFatal else ExitedInCallback)"
  by (simp add: exited_def split: callback.splits)

lemma lock_exit_Warn:
  assumes "\<not> Disable opts" "\<not> DisableLockOrderDetection opts" "ctl_of (preLock opts pr ks oks 4 p l) \<noteq> Returned"
  shows "Warn m \<in> set (trace_of (lock opts pr ks oks env f p l))
           \<longleftrightarrow> Warn m \<in> set (trace_of (preLock_loop opts oks (callers pr 4) (goid_Get pr) p ks l))"
  unfolding lock_enabled_exit [OF assms(1,3)] using preLock_trace_loop [OF assms(2), of pr ks oks 4 p l]
  by simp

lemma takeWhile_split: "ks = visited_before ks b @ dropWhile (\<lambda>k. k \<noteq> b) ks"
  by (simp add: visited_before_def)

text \<open>Every exit ends with the callback, in terms of the two definitions.\<close>

lemma detection_tail:
  "(ctl_of (preLock opts pr ks oks skip p l) \<noteq> Returned \<longrightarrow>
      ctl_of (preLock opts pr ks oks skip p l) = exited opts \<and>
      (\<exists>as. trace_of (preLock opts pr ks oks skip p l) = as @ potentialDeadlock opts
            \<and> (Warn RecursiveLocking \<in> set as \<or> Warn InconsistentLocking \<in> set as)
            \<and> CallOnPotentialDeadlock \<notin> set as \<and> Fatal \<notin> set as))
   \<and> (ctl_of (preLock opts pr ks oks skip p l) = Returned \<longrightarrow>
        (\<forall>m. Warn m \<notin> set (trace_of (preLock opts pr ks oks skip p l))))
   \<and> (\<forall>c. snd (watchdog opts wpr ptr n rs) = Exited c \<longrightarrow>
        c = exited opts \<and>
        (\<exists>as. fst (watchdog opts wpr ptr n rs) = as @ potentialDeadlock opts
            \<and> Warn Header \<in> set as \<and> CallOnPotentialDeadlock \<notin> set as \<and> Fatal \<notin> set as))
   \<and> ((\<forall>c. snd (watchdog opts wpr ptr n rs) \<noteq> Exited c) \<longrightarrow>
        (\<forall>m. Warn m \<notin> set (fst (watchdog opts wpr ptr n rs))))
   \<and> (ctl_of (lock opts pr ks oks env f p l) \<noteq> Returned \<longrightarrow>
        ctl_of (lock opts pr ks oks env f p l) = exited opts \<and>
        (\<forall>f'. LockFn f' \<notin> set (trace_of (lock opts pr ks oks env f p l))))
   \<and> (OnPotentialDeadlock opts = CbReturns \<longrightarrow>
        (potentialDeadlock opts :: 'l action list) = [CallOnPotentialDeadlock, Fatal] \<and> exited opts = ExitedInFatal)
   \<and> exited opts \<noteq> Returned"
proof -
  have pre_exit: "ctl_of (preLock opts pr ks oks skip p l) = exited opts \<and>
      (\<exists>as. trace_of (preLock opts pr ks oks skip p l) = as @ potentialDeadlock opts
            \<and> (Warn RecursiveLocking \<in> set as \<or> Warn InconsistentLocking \<in> set as)
            \<and> CallOnPotentialDeadlock \<notin> set as \<and> Fatal \<notin> set as)"
    if "ctl_of (preLock opts pr ks oks skip p l) \<noteq> Returned"
  proof -
    from preLock_exit [OF that] obtain as where
      as: "trace_of (preLock opts pr ks oks skip p l) = [Callers skip, GoidGet, LoMuLock, CurRange] @ as @ potentialDeadlock opts"
        "ctl_of (preLock opts pr ks oks skip p l) = exited opts"
        "CallOnPotentialDeadlock \<notin> set as" "Fatal \<notin> set as"
        "Warn RecursiveLocking \<in> set as \<or> Warn InconsistentLocking \<in> set as"
      by blast
    let ?as = "[Callers skip, GoidGet, LoMuLock, CurRange] @ as"
    have "trace_of (preLock opts pr ks oks skip p l) = ?as @ potentialDeadlock opts"
      using as(1) by simp
    moreover have "(Warn RecursiveLocking \<in> set ?as \<or> Warn InconsistentLocking \<in> set ?as)
        \<and> CallOnPotentialDeadlock \<notin> set ?as \<and> Fatal \<notin> set ?as"
      using as(3,4,5) by auto
    ultimately show ?thesis using as(2) by blast
  qed
  have pre_ret: "\<forall>m. Warn m \<notin> set (trace_of (preLock opts pr ks oks skip p l))"
    if "ctl_of (preLock opts pr ks oks skip p l) = Returned"
    using preLock_Returned_quiet(1) [OF that] by blast
  have wd_exit: "c = exited opts \<and>
        (\<exists>as. fst (watchdog opts wpr ptr n rs) = as @ potentialDeadlock opts
            \<and> Warn Header \<in> set as \<and> CallOnPotentialDeadlock \<notin> set as \<and> Fatal \<notin> set as)"
    if "snd (watchdog opts wpr ptr n rs) = Exited c" for c
  proof -
    from watchdog_shape [of opts wpr ptr n rs] that obtain k l oks grs prev where
      sh: "snd (watchdog opts wpr ptr n rs) = Exited (exited opts)"
        "fst (watchdog opts wpr ptr n rs)
              = rearmed opts ptr k @ [NewTimer (DeadlockTimeout opts), DeferStop, RecvTimer, LoMuLock, CurGet ptr]
                @ timeoutReport opts wpr ptr l oks grs prev"
      by auto
    let ?as = "rearmed opts ptr k @ [NewTimer (DeadlockTimeout opts), DeferStop, RecvTimer, LoMuLock, CurGet ptr]
        @ [OptsMuLock, Warn Header] @ timeoutBody opts wpr ptr l oks grs prev @ [OptsMuUnlock, LoMuUnlock]"
    have 1: "fst (watchdog opts wpr ptr n rs) = ?as @ potentialDeadlock opts"
      unfolding sh(2) timeoutReport_eq by simp
    have r: "CallOnPotentialDeadlock \<notin> set (rearmed opts ptr k)" "Fatal \<notin> set (rearmed opts ptr k)"
      using set_rearmed [of _ opts ptr k] by (auto simp: rearm_def)
    have b: "CallOnPotentialDeadlock \<notin> set (timeoutBody opts wpr ptr l oks grs prev)"
      "Fatal \<notin> set (timeoutBody opts wpr ptr l oks grs prev)"
      using plain_untouched [OF timeoutBody_plain, of opts wpr ptr l oks grs prev] by simp_all
    have 2: "Warn Header \<in> set ?as \<and> CallOnPotentialDeadlock \<notin> set ?as \<and> Fatal \<notin> set ?as"
      using r b by simp
    from sh(1) that have "c = exited opts" by simp
    with 1 2 show ?thesis by blast
  qed
  have wd_quiet: "\<forall>m. Warn m \<notin> set (fst (watchdog opts wpr ptr n rs))"
    if "\<forall>c. snd (watchdog opts wpr ptr n rs) \<noteq> Exited c"
  proof -
    from watchdog_shape [of opts wpr ptr n rs] that obtain k where
      "fst (watchdog opts wpr ptr n rs) = rearmed opts ptr k @ [NewTimer (DeadlockTimeout opts), DeferStop]
       \<or> fst (watchdog opts wpr ptr n rs)
              = rearmed opts ptr k @ [NewTimer (DeadlockTimeout opts), DeferStop, RecvChan] @ replicate (Suc (n + k)) TimerStop"
      by auto
    moreover have "\<forall>m. Warn m \<notin> set (rearmed opts ptr k)"
      using set_rearmed [of _ opts ptr k] by (auto simp: rearm_def)
    ultimately show ?thesis by auto
  qed
  have lk: "ctl_of (lock opts pr ks oks env f p l) = exited opts \<and>
        (\<forall>f'. LockFn f' \<notin> set (trace_of (lock opts pr ks oks env f p l)))"
    if "ctl_of (lock opts pr ks oks env f p l) \<noteq> Returned"
  proof -
    from lock_exit [OF that] have eq: "lock opts pr ks oks env f p l = preLock opts pr ks oks 4 p l" by simp
    with that have ne: "ctl_of (preLock opts pr ks oks 4 p l) \<noteq> Returned" by simp
    from preLock_exit [OF ne] obtain as where
      as: "trace_of (preLock opts pr ks oks 4 p l) = [Callers 4, GoidGet, LoMuLock, CurRange] @ as @ potentialDeadlock opts"
        "ctl_of (preLock opts pr ks oks 4 p l) = exited opts" "\<forall>f. LockFn f \<notin> set as"
      by blast
    show ?thesis unfolding eq using as potentialDeadlock_quiet(1) [of _ opts] by auto
  qed
  have cb: "(potentialDeadlock opts :: 'l action list) = [CallOnPotentialDeadlock, Fatal] \<and> exited opts = ExitedInFatal"
    if "OnPotentialDeadlock opts = CbReturns"
    using that by (simp add: potentialDeadlock_def exited_def)
  show ?thesis using pre_exit pre_ret wd_exit wd_quiet lk cb exited_not_Returned by blast
qed

section \<open>Order inversion\<close>




section \<open>Recursive locking\<close>

text \<open>
  C2, as the specification states it: a goroutine that locks again a mutex it is
  recorded as holding gets a recursive-locking report. It fails when the goroutine
  holds another mutex taken after the first: goroutine 1 locks A, then B, then A again;
  when the range over the held-map visits B before A, the edge from A to B is found
  first and the report is the inconsistent-locking one.
\<close>

theorem recursion_reported_as_inversion:
  "\<not> Disable defaultOpts \<and> \<not> DisableLockOrderDetection defaultOpts
   \<and> run defaultOpts firstAB newLockOrder = Some afterAB
   \<and> fmlookup (cur afterAB) lockA = Some \<lparr>stack = [1], gid = 1\<rparr> \<and> goid_Get goroutine1 = 1
   \<and> range_order [lockB, lockA] (cur afterAB)
   \<and> Warn RecursiveLocking \<notin> set (trace_of (Mutex_Lock defaultOpts goroutine1 [lockB, lockA] [lockB, lockA] id lockA afterAB))
   \<and> Warn InconsistentLocking \<in> set (trace_of (Mutex_Lock defaultOpts goroutine1 [lockB, lockA] [lockB, lockA] id lockA afterAB))"
proof -
  have 1: "\<not> Disable defaultOpts \<and> \<not> DisableLockOrderDetection defaultOpts"
    by (simp add: defaultOpts_def)
  have 2: "fmlookup (cur afterAB) lockA = Some \<lparr>stack = [1], gid = 1\<rparr> \<and> goid_Get goroutine1 = 1"
    by (simp add: afterAB_def goroutine1_def lockA_def lockB_def)
  have 3: "range_order [lockB, lockA] (cur afterAB)"
    by (simp add: range_order_def afterAB_def lockA_def lockB_def)
  have tr: "trace_of (Mutex_Lock defaultOpts goroutine1 [lockB, lockA] [lockB, lockA] id lockA afterAB)
      = [Callers 4, GoidGet, LoMuLock, CurRange, OrderGet (BeforeAfter lockA lockB),
         OptsMuLock, Warn InconsistentLocking, Warn HappenedBefore, PrintStack [1],
         Warn HappenedAfter, PrintStack [1], Warn OtherHappenedBefore, PrintStack [1],
         Warn HappenedAfter, PrintStack [1], CurRange, Warn OthersHolding, CurRange,
         Warn (GoroutineLock 1 lockB), PrintStack [1], OptsMuUnlock, CallOnPotentialDeadlock]"
    by (simp add: afterAB_def report_defs run_defs)
  show ?thesis unfolding tr using 1 2 3 run_firstAB_default by simp
qed

text \<open>
  C2, as amended. With detection enabled: if a goroutine recorded as holding L calls
  \<open>Lock\<close> or \<open>RLock\<close> on L, exactly one report is written and
  \<open>Opts.OnPotentialDeadlock\<close> is called, and the underlying acquire is never reached.
  The order of the range over the held-map decides which report: it is the
  inconsistent-locking one exactly when some lock b visited before L is recorded as
  held by the same goroutine and the order table has the edge from L to b when b is
  visited, and the recursive-locking one otherwise. In particular it is the recursive
  one when no lock visited before L is held by the goroutine with the edge from L to
  it in the table at the call, and the inconsistent one when there is such a lock and
  the table is not reset during the call. If L is recorded as held by a different
  goroutine, no recursive-locking report is written.
\<close>

theorem recursion_reported:
  assumes "\<not> Disable opts" "\<not> DisableLockOrderDetection opts" "range_order ks (cur l)"
    "fmlookup (cur l) L = Some bs"
  shows "(gid bs = goid_Get pr \<longrightarrow>
            ctl_of (lock opts pr ks oks env f L l) \<noteq> Returned
            \<and> (\<forall>f'. LockFn f' \<notin> set (trace_of (lock opts pr ks oks env f L l)))
            \<and> CallOnPotentialDeadlock \<in> set (trace_of (lock opts pr ks oks env f L l))
            \<and> (Warn RecursiveLocking \<in> set (trace_of (lock opts pr ks oks env f L l))
                \<or> Warn InconsistentLocking \<in> set (trace_of (lock opts pr ks oks env f L l)))
            \<and> (Warn InconsistentLocking \<in> set (trace_of (lock opts pr ks oks env f L l)) \<longrightarrow>
                 (\<exists>b bs'. b \<noteq> L \<and> fmlookup (cur l) b = Some bs' \<and> gid bs' = goid_Get pr
                    \<and> fmlookup (order l) (BeforeAfter L b) \<noteq> None))
            \<and> (Warn InconsistentLocking \<in> set (trace_of (lock opts pr ks oks env f L l))
                 \<longleftrightarrow> inversion_met_first opts oks (callers pr 4) (goid_Get pr) L ks l)
            \<and> (Warn RecursiveLocking \<in> set (trace_of (lock opts pr ks oks env f L l))
                 \<longleftrightarrow> \<not> inversion_met_first opts oks (callers pr 4) (goid_Get pr) L ks l)
            \<and> ((\<forall>b \<in> set (visited_before ks L). held_by l (goid_Get pr) b \<longrightarrow>
                    fmlookup (order l) (BeforeAfter L b) = None) \<longrightarrow>
                 Warn RecursiveLocking \<in> set (trace_of (lock opts pr ks oks env f L l))
                 \<and> Warn InconsistentLocking \<notin> set (trace_of (lock opts pr ks oks env f L l)))
            \<and> ((\<exists>b \<in> set (visited_before ks L). held_by l (goid_Get pr) b
                    \<and> fmlookup (order l) (BeforeAfter L b) \<noteq> None)
                 \<and> OrderReset \<notin> set (trace_of (lock opts pr ks oks env f L l)) \<longrightarrow>
                 Warn InconsistentLocking \<in> set (trace_of (lock opts pr ks oks env f L l))
                 \<and> Warn RecursiveLocking \<notin> set (trace_of (lock opts pr ks oks env f L l))))
       \<and> (gid bs \<noteq> goid_Get pr \<longrightarrow>
            Warn RecursiveLocking \<notin> set (trace_of (lock opts pr ks oks env f L l)))"
proof -
  let ?stk = "callers pr 4" and ?g = "goid_Get pr"
  let ?loop = "preLock_loop opts oks ?stk ?g L ks l"
  let ?tr = "trace_of (lock opts pr ks oks env f L l)"
  note tl = preLock_trace_loop [OF assms(2), of pr ks oks 4 L l]
  from assms(3,4) have mem: "L \<in> set ks" by (rule range_order_mem)
  from assms(3) have dist: "distinct ks" by (simp add: range_order_def)
  have inv: "\<exists>b bs'. b \<noteq> L \<and> fmlookup (cur l) b = Some bs' \<and> gid bs' = goid_Get pr
                    \<and> fmlookup (order l) (BeforeAfter L b) \<noteq> None"
    if "Warn InconsistentLocking \<in> set ?tr"
  proof -
    from lock_Warn [OF that] tl have "Warn InconsistentLocking \<in> set (trace_of ?loop)" by simp
    then show ?thesis by (rule preLock_loop_inversion_only_if_edge)
  qed
  have diff: "Warn RecursiveLocking \<notin> set ?tr" if g: "gid bs \<noteq> goid_Get pr"
  proof
    assume "Warn RecursiveLocking \<in> set ?tr"
    from lock_Warn [OF this] tl have "Warn RecursiveLocking \<in> set (trace_of ?loop)" by simp
    from preLock_loop_recursive_only_if_held [OF this] assms(4) g show False by simp
  qed
  have same: "ctl_of (lock opts pr ks oks env f L l) \<noteq> Returned
            \<and> (\<forall>f'. LockFn f' \<notin> set ?tr)
            \<and> CallOnPotentialDeadlock \<in> set ?tr
            \<and> (Warn RecursiveLocking \<in> set ?tr \<or> Warn InconsistentLocking \<in> set ?tr)
            \<and> (Warn InconsistentLocking \<in> set ?tr \<longleftrightarrow> inversion_met_first opts oks ?stk ?g L ks l)
            \<and> (Warn RecursiveLocking \<in> set ?tr \<longleftrightarrow> \<not> inversion_met_first opts oks ?stk ?g L ks l)
            \<and> ((\<forall>b \<in> set (visited_before ks L). held_by l ?g b \<longrightarrow> fmlookup (order l) (BeforeAfter L b) = None) \<longrightarrow>
                 Warn RecursiveLocking \<in> set ?tr \<and> Warn InconsistentLocking \<notin> set ?tr)
            \<and> ((\<exists>b \<in> set (visited_before ks L). held_by l ?g b \<and> fmlookup (order l) (BeforeAfter L b) \<noteq> None)
                 \<and> OrderReset \<notin> set ?tr \<longrightarrow>
                 Warn InconsistentLocking \<in> set ?tr \<and> Warn RecursiveLocking \<notin> set ?tr)"
    if g: "gid bs = goid_Get pr"
  proof -
    from preLock_loop_recursion_found [OF assms(4) g mem] tl
    have ne: "ctl_of (preLock opts pr ks oks 4 L l) \<noteq> Returned" by simp
    note d = lock_detected [OF assms(1) ne, of env f]
    note w = lock_exit_Warn [OF assms(1,2) ne, of _ env f]
    note ff = preLock_loop_first_finding [OF dist mem assms(4) g, of opts oks ?stk]
    have i: "Warn InconsistentLocking \<in> set ?tr \<longleftrightarrow> inversion_met_first opts oks ?stk ?g L ks l"
      and r: "Warn RecursiveLocking \<in> set ?tr \<longleftrightarrow> \<not> inversion_met_first opts oks ?stk ?g L ks l"
      using ff w by simp_all
    have none: "\<not> inversion_met_first opts oks ?stk ?g L ks l"
      if a: "\<forall>b \<in> set (visited_before ks L). held_by l ?g b \<longrightarrow> fmlookup (order l) (BeforeAfter L b) = None"
    proof
      assume "inversion_met_first opts oks ?stk ?g L ks l"
      then obtain b where b: "b \<in> set (visited_before ks L)" "held_by l ?g b"
        "fmlookup (table_when_visited opts oks ?stk ?g L ks l b) (BeforeAfter L b) \<noteq> None"
        by (auto simp: inversion_met_first_def list_ex_iff)
      from b(3) have "fmlookup (order l) (BeforeAfter L b) \<noteq> None"
        unfolding table_when_visited_def by (rule preLock_loop_edges_from_p)
      with a b(1,2) show False by auto
    qed
    have some: "inversion_met_first opts oks ?stk ?g L ks l"
      if a: "\<exists>b \<in> set (visited_before ks L). held_by l ?g b \<and> fmlookup (order l) (BeforeAfter L b) \<noteq> None"
        and nr: "OrderReset \<notin> set ?tr"
    proof -
      from a obtain b where b: "b \<in> set (visited_before ks L)" "held_by l ?g b"
        "fmlookup (order l) (BeforeAfter L b) \<noteq> None" by blast
      from nr lock_trace_sub [OF assms(1), of pr ks oks L l env f] tl
      have nrl: "OrderReset \<notin> set (trace_of ?loop)" by auto
      have "OrderReset \<notin> set (trace_of (preLock_loop opts oks ?stk ?g L (visited_before ks b) l))"
      proof
        assume "OrderReset \<in> set (trace_of (preLock_loop opts oks ?stk ?g L (visited_before ks b) l))"
        then have "OrderReset \<in> set (trace_of (preLock_loop opts oks ?stk ?g L
            (visited_before ks b @ dropWhile (\<lambda>k. k \<noteq> b) ks) l))"
          by (rule preLock_loop_trace_prefix [rotated]) simp
        with nrl takeWhile_split [of ks b] show False by simp
      qed
      from preLock_loop_no_reset_keeps [OF this b(3)]
      have "fmlookup (table_when_visited opts oks ?stk ?g L ks l b) (BeforeAfter L b) \<noteq> None"
        by (simp add: table_when_visited_def)
      with b(1,2) show ?thesis by (auto simp: inversion_met_first_def list_ex_iff)
    qed
    from d i r none some show ?thesis by blast
  qed
  from inv same diff show ?thesis by blast
qed

text \<open>
  The same goroutine, another goroutine, and the same goroutine holding a second lock
  that the range visits before, or after, the first, at concrete inputs.
\<close>

theorem recursion_reported_witness:
  "\<not> Disable defaultOpts \<and> \<not> DisableLockOrderDetection defaultOpts
   \<and> range_order [lockA] (cur heldA) \<and> fmlookup (cur heldA) lockA = Some \<lparr>stack = [1], gid = 1\<rparr>
   \<and> gid \<lparr>stack = [1], gid = 1\<rparr> = goid_Get goroutine1
   \<and> ctl_of (lock defaultOpts goroutine1 [lockA] [lockA] id Mutex_mu_Lock lockA heldA) \<noteq> Returned
   \<and> Warn RecursiveLocking \<in> set (trace_of (lock defaultOpts goroutine1 [lockA] [lockA] id Mutex_mu_Lock lockA heldA))
   \<and> gid \<lparr>stack = [1], gid = 1\<rparr> \<noteq> goid_Get goroutine2
   \<and> Warn RecursiveLocking \<notin> set (trace_of (lock defaultOpts goroutine2 [lockA] [lockA] id Mutex_mu_Lock lockA heldA))
   \<and> range_order [lockB, lockA] (cur afterAB) \<and> fmlookup (cur afterAB) lockA = Some \<lparr>stack = [1], gid = 1\<rparr>
   \<and> lockB \<in> set (visited_before [lockB, lockA] lockA) \<and> held_by afterAB (goid_Get goroutine1) lockB
   \<and> fmlookup (order afterAB) (BeforeAfter lockA lockB) \<noteq> None
   \<and> OrderReset \<notin> set (trace_of (lock defaultOpts goroutine1 [lockB, lockA] [lockB, lockA] id Mutex_mu_Lock lockA afterAB))
   \<and> Warn InconsistentLocking \<in> set (trace_of (lock defaultOpts goroutine1 [lockB, lockA] [lockB, lockA] id Mutex_mu_Lock lockA afterAB))
   \<and> Warn RecursiveLocking \<notin> set (trace_of (lock defaultOpts goroutine1 [lockB, lockA] [lockB, lockA] id Mutex_mu_Lock lockA afterAB))
   \<and> inversion_met_first defaultOpts [lockB, lockA] (callers goroutine1 4) (goid_Get goroutine1) lockA [lockB, lockA] afterAB
   \<and> (\<exists>b bs'. b \<noteq> lockA \<and> fmlookup (cur afterAB) b = Some bs' \<and> gid bs' = goid_Get goroutine1
          \<and> fmlookup (order afterAB) (BeforeAfter lockA b) \<noteq> None)
   \<and> range_order [lockA, lockB] (cur afterAB)
   \<and> visited_before [lockA, lockB] lockA = []
   \<and> Warn RecursiveLocking \<in> set (trace_of (lock defaultOpts goroutine1 [lockA, lockB] [lockA, lockB] id Mutex_mu_Lock lockA afterAB))
   \<and> Warn InconsistentLocking \<notin> set (trace_of (lock defaultOpts goroutine1 [lockA, lockB] [lockA, lockB] id Mutex_mu_Lock lockA afterAB))"
proof -
  have h1: "\<not> Disable defaultOpts" and h2: "\<not> DisableLockOrderDetection defaultOpts"
    by (simp_all add: defaultOpts_def)
  have h3: "range_order [lockA] (cur heldA)" by (simp add: range_order_def heldA_def)
  have h4: "fmlookup (cur heldA) lockA = Some \<lparr>stack = [1], gid = 1\<rparr>" by (simp add: heldA_def)
  have g1: "gid \<lparr>stack = [1], gid = 1\<rparr> = goid_Get goroutine1" by (simp add: goroutine1_def)
  have g2: "gid \<lparr>stack = [1], gid = 1\<rparr> \<noteq> goid_Get goroutine2" by (simp add: goroutine2_def)
  have h5: "range_order [lockB, lockA] (cur afterAB)"
    by (simp add: range_order_def afterAB_def lockA_def lockB_def)
  have h5': "range_order [lockA, lockB] (cur afterAB)"
    by (simp add: range_order_def afterAB_def lockA_def lockB_def finsert_commute)
  have h6: "fmlookup (cur afterAB) lockA = Some \<lparr>stack = [1], gid = 1\<rparr>"
    by (simp add: afterAB_def lockA_def lockB_def)
  have v1: "\<forall>b \<in> set (visited_before [lockA] lockA). held_by heldA (goid_Get goroutine1) b \<longrightarrow>
          fmlookup (order heldA) (BeforeAfter lockA b) = None"
    by (simp add: visited_before_def)
  have v3: "\<exists>b \<in> set (visited_before [lockB, lockA] lockA). held_by afterAB (goid_Get goroutine1) b
          \<and> fmlookup (order afterAB) (BeforeAfter lockA b) \<noteq> None"
    by (simp add: visited_before_def held_by_def afterAB_def goroutine1_def lockA_def lockB_def)
  have v4: "\<forall>b \<in> set (visited_before [lockA, lockB] lockA). held_by afterAB (goid_Get goroutine1) b \<longrightarrow>
          fmlookup (order afterAB) (BeforeAfter lockA b) = None"
    by (simp add: visited_before_def)
  have w3: "lockB \<in> set (visited_before [lockB, lockA] lockA) \<and> held_by afterAB (goid_Get goroutine1) lockB
      \<and> fmlookup (order afterAB) (BeforeAfter lockA lockB) \<noteq> None"
    by (simp add: visited_before_def held_by_def afterAB_def goroutine1_def lockA_def lockB_def)
  have w4: "visited_before [lockA, lockB] lockA = []"
    by (simp add: visited_before_def)
  have nr: "OrderReset \<notin> set (trace_of (lock defaultOpts goroutine1 [lockB, lockA] [lockB, lockA] id Mutex_mu_Lock lockA afterAB))"
    by (simp add: afterAB_def report_defs run_defs)
  note T1 = recursion_reported [OF h1 h2 h3 h4, of goroutine1 "[lockA]" id Mutex_mu_Lock]
  note T2 = recursion_reported [OF h1 h2 h3 h4, of goroutine2 "[lockA]" id Mutex_mu_Lock]
  note T3 = recursion_reported [OF h1 h2 h5 h6, of goroutine1 "[lockB, lockA]" id Mutex_mu_Lock]
  note T4 = recursion_reported [OF h1 h2 h5' h6, of goroutine1 "[lockA, lockB]" id Mutex_mu_Lock]
  from T1 g1 v1 have c1: "ctl_of (lock defaultOpts goroutine1 [lockA] [lockA] id Mutex_mu_Lock lockA heldA) \<noteq> Returned
      \<and> Warn RecursiveLocking \<in> set (trace_of (lock defaultOpts goroutine1 [lockA] [lockA] id Mutex_mu_Lock lockA heldA))"
    by blast
  from T2 g2 have c2: "Warn RecursiveLocking \<notin> set (trace_of (lock defaultOpts goroutine2 [lockA] [lockA] id Mutex_mu_Lock lockA heldA))"
    by blast
  from T3 g1 v3 nr have c3: "Warn InconsistentLocking \<in> set (trace_of (lock defaultOpts goroutine1 [lockB, lockA] [lockB, lockA] id Mutex_mu_Lock lockA afterAB))
      \<and> Warn RecursiveLocking \<notin> set (trace_of (lock defaultOpts goroutine1 [lockB, lockA] [lockB, lockA] id Mutex_mu_Lock lockA afterAB))"
    by blast
  from T3 g1 c3 have c4: "inversion_met_first defaultOpts [lockB, lockA] (callers goroutine1 4) (goid_Get goroutine1) lockA [lockB, lockA] afterAB"
    by blast
  from T3 g1 c3 have c5: "\<exists>b bs'. b \<noteq> lockA \<and> fmlookup (cur afterAB) b = Some bs' \<and> gid bs' = goid_Get goroutine1
          \<and> fmlookup (order afterAB) (BeforeAfter lockA b) \<noteq> None"
    by blast
  from T4 g1 v4 have c6: "Warn RecursiveLocking \<in> set (trace_of (lock defaultOpts goroutine1 [lockA, lockB] [lockA, lockB] id Mutex_mu_Lock lockA afterAB))
      \<and> Warn InconsistentLocking \<notin> set (trace_of (lock defaultOpts goroutine1 [lockA, lockB] [lockA, lockB] id Mutex_mu_Lock lockA afterAB))"
    by blast
  from h1 h2 h3 h4 g1 c1 g2 c2 h5 h6 w3 nr c3 c4 c5 h5' w4 c6 show ?thesis by blast
qed

section \<open>The timeout watchdog\<close>

text \<open>
  C3, as the specification states it: with a positive \<open>DeadlockTimeout\<close> each
  acquisition attempt spawns one watchdog goroutine. It fails when \<open>Opts.Disable\<close>
  is set: the default timeout of 30 seconds is positive and \<open>lock\<close> starts no
  goroutine.
\<close>

theorem no_watchdog_when_disabled:
  "0 < DeadlockTimeout disabledOpts
   \<and> count_list (trace_of (Mutex_Lock disabledOpts goroutine1 [] [] id lockA newLockOrder)) Go = 0"
  by (simp add: Mutex_Lock_def lock_def disabledOpts_def defaultOpts_def)

text \<open>
  C3, as amended. With detection not disabled and a positive \<open>DeadlockTimeout\<close>,
  each acquisition attempt in which \<open>preLock\<close> detects nothing starts exactly one
  watchdog goroutine. That goroutine writes no report and finishes when the completion
  channel is ready first; when the timer fires and the lock is not in the held-map, it
  only re-arms the timer and goes round again, with no report; and for any sequence of
  rounds it writes at most one timeout report, and writes one only if in some round
  the timer fired while the lock was in the held-map.
\<close>

theorem watchdog_reports_once:
  "(\<not> Disable opts \<and> 0 < DeadlockTimeout opts \<and> ctl_of (preLock opts pr ks oks 4 p l) = Returned \<longrightarrow>
      count_list (trace_of (lock opts pr ks oks env f p l)) Go = 1)
   \<and> snd (watchdog opts wpr ptr n (Chan # rs)) = Finished
   \<and> (\<forall>m. Warn m \<notin> set (fst (watchdog opts wpr ptr n (Chan # rs))))
   \<and> (fmlookup (cur g) ptr = None \<longrightarrow>
        watchdog opts wpr ptr n (Timer g oks' grs # rs)
          = (rearm opts ptr @ fst (watchdog opts wpr ptr (Suc n) rs), snd (watchdog opts wpr ptr (Suc n) rs)))
   \<and> count_list (fst (watchdog opts wpr ptr n rs)) (Warn Header) \<le> 1
   \<and> (Warn Header \<in> set (fst (watchdog opts wpr ptr n rs)) \<longrightarrow>
        (\<exists>g oks' grs prev. Timer g oks' grs \<in> set rs \<and> fmlookup (cur g) ptr = Some prev))"
proof -
  have 1: "count_list (trace_of (lock opts pr ks oks env f p l)) Go = 1"
    if "\<not> Disable opts" "0 < DeadlockTimeout opts" "ctl_of (preLock opts pr ks oks 4 p l) = Returned"
    using that preLock_Returned_quiet(2) [OF that(3)]
    by (simp add: lock_def Let_def postLock_def)
  have 2: "snd (watchdog opts wpr ptr n (Chan # rs)) = Finished" by simp
  have 3: "\<forall>m. Warn m \<notin> set (fst (watchdog opts wpr ptr n (Chan # rs)))" by simp
  have 4: "watchdog opts wpr ptr n (Timer g oks' grs # rs)
          = (rearm opts ptr @ fst (watchdog opts wpr ptr (Suc n) rs), snd (watchdog opts wpr ptr (Suc n) rs))"
    if "fmlookup (cur g) ptr = None"
    using that by (simp add: rearm_def split: prod.splits)
  from 1 2 3 4 watchdog_count [of opts wpr ptr n rs] watchdog_report_held [where ptr = ptr and opts = opts and wpr = wpr and n = n and rs = rs]
  show ?thesis by blast
qed

text \<open>An uncontended acquisition, and a watchdog that re-arms once and then reports.\<close>

theorem watchdog_reports_once_witness:
  "\<not> Disable defaultOpts \<and> 0 < DeadlockTimeout defaultOpts
   \<and> ctl_of (preLock defaultOpts goroutine1 [] [] 4 lockA newLockOrder) = Returned
   \<and> count_list (trace_of (lock defaultOpts goroutine1 [] [] id Mutex_mu_Lock lockA newLockOrder)) Go = 1
   \<and> fmlookup (cur (newLockOrder :: nat lockOrder)) lockA = None
   \<and> watchdog defaultOpts goroutine2 lockA 0 [Timer newLockOrder [] [], Timer heldA [lockA] []]
       = (rearm defaultOpts lockA @ fst (watchdog defaultOpts goroutine2 lockA (Suc 0) [Timer heldA [lockA] []]),
          snd (watchdog defaultOpts goroutine2 lockA (Suc 0) [Timer heldA [lockA] []]))
   \<and> Warn Header \<in> set (fst (watchdog defaultOpts goroutine2 lockA 0 [Timer newLockOrder [] [], Timer heldA [lockA] []]))
   \<and> count_list (fst (watchdog defaultOpts goroutine2 lockA 0 [Timer newLockOrder [] [], Timer heldA [lockA] []])) (Warn Header) \<le> 1
   \<and> (\<exists>g oks' grs prev. Timer g oks' grs \<in> set [Timer newLockOrder [] [], Timer heldA [lockA] []]
         \<and> fmlookup (cur g) lockA = Some prev)"
proof -
  have e1: "\<not> Disable defaultOpts \<and> 0 < DeadlockTimeout defaultOpts
      \<and> ctl_of (preLock defaultOpts goroutine1 [] [] 4 lockA newLockOrder) = Returned"
    by (simp add: defaultOpts_def preLock_def prefixed_def)
  have e2: "fmlookup (cur (newLockOrder :: nat lockOrder)) lockA = None"
    by (simp add: newLockOrder_def)
  have e3: "Warn Header \<in> set (fst (watchdog defaultOpts goroutine2 lockA 0 [Timer newLockOrder [] [], Timer heldA [lockA] []]))"
    by (simp add: newLockOrder_def heldA_def timeoutReport_def)
  note T1 = watchdog_reports_once [where opts = defaultOpts and pr = goroutine1 and ks = "[]" and oks = "[]"
      and p = lockA and l = newLockOrder and env = id and f = Mutex_mu_Lock and wpr = goroutine2
      and ptr = lockA and n = 0 and rs = "[Timer heldA [lockA] []]" and g = newLockOrder and oks' = "[]" and grs = "[]"]
  note T2 = watchdog_reports_once [where opts = defaultOpts and pr = goroutine1 and ks = "[]" and oks = "[]"
      and p = lockA and l = newLockOrder and env = id and f = Mutex_mu_Lock and wpr = goroutine2
      and ptr = lockA and n = 0 and rs = "[Timer newLockOrder [] [], Timer heldA [lockA] []]"
      and g = newLockOrder and oks' = "[]" and grs = "[]"]
  from T1 e1 have c1: "count_list (trace_of (lock defaultOpts goroutine1 [] [] id Mutex_mu_Lock lockA newLockOrder)) Go = 1"
    by blast
  from T1 e2 have c2: "watchdog defaultOpts goroutine2 lockA 0 [Timer newLockOrder [] [], Timer heldA [lockA] []]
       = (rearm defaultOpts lockA @ fst (watchdog defaultOpts goroutine2 lockA (Suc 0) [Timer heldA [lockA] []]),
          snd (watchdog defaultOpts goroutine2 lockA (Suc 0) [Timer heldA [lockA] []]))"
    by blast
  from T2 have c3: "count_list (fst (watchdog defaultOpts goroutine2 lockA 0 [Timer newLockOrder [] [], Timer heldA [lockA] []])) (Warn Header) \<le> 1"
    by blast
  from T2 e3 have c4: "\<exists>g oks' grs prev. Timer g oks' grs \<in> set [Timer newLockOrder [] [], Timer heldA [lockA] []]
         \<and> fmlookup (cur g) lockA = Some prev"
    by blast
  from e1 c1 e2 c2 e3 c3 c4 show ?thesis by blast
qed

section \<open>What follows a detection\<close>



section \<open>When the order table is reset\<close>

text \<open>
  C5, as the specification states it: the reset is triggered by the N+1st distinct
  pair, and the table need not be empty after it because the triggering insertion
  adds its entry again. It fails for N = 2: after goroutine 1 has locked A and then B
  the table holds one pair; when it then locks C while holding A, the second distinct
  pair is recorded and the table is left empty, without that pair.
\<close>

theorem reset_by_second_pair_of_two:
  "MaxMapSize twoOpts = 2
   \<and> run twoOpts firstAB newLockOrder = Some afterAB
   \<and> len (order afterAB) = 1
   \<and> fmlookup (order afterAB) (BeforeAfter lockA lockC) = None
   \<and> run twoOpts [PostUnlock lockB, PreLock goroutine1 [lockA] [lockA] 4 lockC] afterAB = Some heldA
   \<and> len (order heldA) = 0
   \<and> fmlookup (order heldA) (BeforeAfter lockA lockC) = None"
proof -
  have "run twoOpts [PostUnlock lockB, PreLock goroutine1 [lockA] [lockA] 4 lockC] afterAB = Some heldA"
    apply (simp add: afterAB_def heldA_def run_defs)
    apply (rule fmap_ext)
    apply simp
    done
  then show ?thesis
    using run_firstAB by (simp add: twoOpts_def afterAB_def heldA_def len_fmupd lockB_def lockC_def)
qed

text \<open>
  C5, as amended. With \<open>MaxMapSize\<close> = N, recording an ordered pair that is not in
  the table when the table holds N - 1 entries, that is the N-th distinct pair since
  the table was last empty, resets the table, and the table is empty after it: the
  pair that triggered the reset is discarded too. Any other new pair is added and the
  table grows by one; recording a pair that is already in the table (below N entries)
  replaces its evidence and leaves the size as it was. The held-map is not touched.
\<close>

theorem reset_at_MaxMapSize:
  "(fmlookup (order l) (BeforeAfter b p) = None \<and> len (order l) + 1 = MaxMapSize opts \<longrightarrow>
      order (recordEdge opts b p bs stk l) = fmempty)
   \<and> (fmlookup (order l) (BeforeAfter b p) = None \<and> len (order l) + 1 \<noteq> MaxMapSize opts \<longrightarrow>
      order (recordEdge opts b p bs stk l) = fmupd (BeforeAfter b p) \<lparr>before = stack bs, after = stk\<rparr> (order l)
      \<and> len (order (recordEdge opts b p bs stk l)) = len (order l) + 1)
   \<and> (fmlookup (order l) (BeforeAfter b p) \<noteq> None \<and> len (order l) \<noteq> MaxMapSize opts \<longrightarrow>
      order (recordEdge opts b p bs stk l) = fmupd (BeforeAfter b p) \<lparr>before = stack bs, after = stk\<rparr> (order l)
      \<and> len (order (recordEdge opts b p bs stk l)) = len (order l))
   \<and> cur (recordEdge opts b p bs stk l) = cur l"
  by (auto simp: recordEdge_order len_fmupd)

text \<open>The three cases at concrete inputs, for a table of two entries.\<close>

theorem reset_at_MaxMapSize_witness:
  "fmlookup (order afterAB) (BeforeAfter lockA lockC) = None \<and> len (order afterAB) + 1 = MaxMapSize twoOpts
   \<and> order (recordEdge twoOpts lockA lockC \<lparr>stack = [1], gid = 1\<rparr> [1] afterAB) = fmempty
   \<and> fmlookup (order newLockOrder) (BeforeAfter lockA lockB) = None \<and> len (order (newLockOrder :: nat lockOrder)) + 1 \<noteq> MaxMapSize twoOpts
   \<and> len (order (recordEdge twoOpts lockA lockB \<lparr>stack = [1], gid = 1\<rparr> [1] newLockOrder)) = len (order (newLockOrder :: nat lockOrder)) + 1
   \<and> fmlookup (order afterAB) (BeforeAfter lockA lockB) \<noteq> None \<and> len (order afterAB) \<noteq> MaxMapSize twoOpts
   \<and> len (order (recordEdge twoOpts lockA lockB \<lparr>stack = [1], gid = 1\<rparr> [1] afterAB)) = len (order afterAB)"
proof -
  have e1: "fmlookup (order afterAB) (BeforeAfter lockA lockC) = None \<and> len (order afterAB) + 1 = MaxMapSize twoOpts"
    by (simp add: afterAB_def twoOpts_def len_fmupd lockB_def lockC_def)
  have e2: "fmlookup (order newLockOrder) (BeforeAfter lockA lockB) = None
      \<and> len (order (newLockOrder :: nat lockOrder)) + 1 \<noteq> MaxMapSize twoOpts"
    by (simp add: newLockOrder_def twoOpts_def)
  have e3: "fmlookup (order afterAB) (BeforeAfter lockA lockB) \<noteq> None \<and> len (order afterAB) \<noteq> MaxMapSize twoOpts"
    by (simp add: afterAB_def twoOpts_def len_fmupd)
  from e1 reset_at_MaxMapSize [where opts = twoOpts and l = afterAB and b = lockA and p = lockC
      and bs = "\<lparr>stack = [1], gid = 1\<rparr>" and stk = "[1]"]
  have c1: "order (recordEdge twoOpts lockA lockC \<lparr>stack = [1], gid = 1\<rparr> [1] afterAB) = fmempty"
    by blast
  from e2 reset_at_MaxMapSize [where opts = twoOpts and l = "newLockOrder :: nat lockOrder" and b = lockA and p = lockB
      and bs = "\<lparr>stack = [1], gid = 1\<rparr>" and stk = "[1]"]
  have c2: "len (order (recordEdge twoOpts lockA lockB \<lparr>stack = [1], gid = 1\<rparr> [1] newLockOrder)) = len (order (newLockOrder :: nat lockOrder)) + 1"
    by blast
  from e3 reset_at_MaxMapSize [where opts = twoOpts and l = afterAB and b = lockA and p = lockB
      and bs = "\<lparr>stack = [1], gid = 1\<rparr>" and stk = "[1]"]
  have c3: "len (order (recordEdge twoOpts lockA lockB \<lparr>stack = [1], gid = 1\<rparr> [1] afterAB)) = len (order afterAB)"
    by blast
  from e1 c1 e2 c2 e3 c3 show ?thesis by blast
qed

section \<open>Detection disabled\<close>

text \<open>
  C6. When \<open>Opts.Disable\<close> is true, \<open>Lock\<close> and \<open>RLock\<close> are exactly one call of the
  underlying primitive's acquire, and \<open>Unlock\<close> and \<open>RUnlock\<close> exactly its release:
  the trace holds that one call and nothing else (no access to the global state, no
  guard, no watchdog goroutine, no stack capture, no deletion from the held-map) and
  the global state is unchanged, which is the raw primitive.
\<close>

theorem disabled_pass_through:
  assumes "Disable opts"
  shows "Mutex_Lock opts pr ks oks env m l = raw_acquire Mutex_mu_Lock l
       \<and> RWMutex_Lock opts pr ks oks env m l = raw_acquire RWMutex_mu_Lock l
       \<and> RWMutex_RLock opts pr ks oks env m l = raw_acquire RWMutex_mu_RLock l
       \<and> Mutex_Unlock opts m l = raw_release Mutex_mu_Unlock l
       \<and> RWMutex_Unlock opts m l = raw_release RWMutex_mu_Unlock l
       \<and> RWMutex_RUnlock opts m l = raw_release RWMutex_mu_RUnlock l"
  using assms
  by (simp add: Mutex_Lock_def RWMutex_Lock_def RWMutex_RLock_def Mutex_Unlock_def
      RWMutex_Unlock_def RWMutex_RUnlock_def lock_def unlock_def raw_acquire_def raw_release_def)

theorem disabled_pass_through_witness:
  "Disable disabledOpts
   \<and> Mutex_Lock disabledOpts goroutine1 [] [] id lockA newLockOrder
       = Result newLockOrder [LockFn Mutex_mu_Lock] Returned
   \<and> RWMutex_RUnlock disabledOpts lockA newLockOrder
       = Result newLockOrder [UnlockFn RWMutex_mu_RUnlock] Returned"
  using disabled_pass_through [of disabledOpts goroutine1 "[]" "[]" id lockA newLockOrder]
  by (simp add: disabledOpts_def defaultOpts_def raw_acquire_def raw_release_def)

section \<open>What the guard is held across\<close>

text \<open>
  C7, as the specification states it: \<open>lo.mu\<close> is never held across a call into
  the Frame/Identity provider nor across the blocking acquire. It fails where
  \<open>preLock\<close> reports: a goroutine that locks again a mutex it holds renders both
  stacks with \<open>printStack\<close> while it holds \<open>lo.mu\<close>.
\<close>

theorem guard_held_across_rendering:
  "under_lo_mu (trace_of (Mutex_Lock defaultOpts goroutine1 [lockA] [lockA] id lockA heldA))
     = [CurRange, OptsMuLock, Warn RecursiveLocking, Warn (CurrentGoroutineLock 1 lockA), PrintStack [1],
        Warn PreviousPlaceSame, PrintStack [1], CurRange, OptsMuUnlock, CallOnPotentialDeadlock]
   \<and> \<not> guard_never_across (trace_of (Mutex_Lock defaultOpts goroutine1 [lockA] [lockA] id lockA heldA))"
  by (simp add: Mutex_Lock_def ex_defs guard_never_across_def under_lo_mu_def recursiveReport_def other_def
      potentialDeadlock_def)

text \<open>
  C7, as amended. \<open>lo.mu\<close> is never held across the blocking acquire. On every
  path without a detection (\<open>lock\<close>, \<open>preLock\<close>, \<open>postLock\<close>, the unlocks, and
  the watchdog that is cancelled or re-armed) it is held only across reads and writes
  of the held-map and the order table: stacks and goroutine ids are taken before it is
  locked. On every path with a detection (recursive locking and order inversion in
  \<open>preLock\<close>, timeout in the watchdog) the report is written while \<open>lo.mu\<close> is
  held: \<open>preLock\<close> renders the caller's stack under it, and the watchdog reads its
  goroutine id, captures and renders its stack and takes the dump of all goroutines
  under it.
\<close>

theorem guard_discipline:
  "list_all (\<lambda>a. \<not> blocking_acquire a) (under_lo_mu (trace_of (lock opts pr ks oks env f m l)))
   \<and> (ctl_of (lock opts pr ks oks env f m l) = Returned \<longrightarrow>
        list_all bookkeeping (under_lo_mu (trace_of (lock opts pr ks oks env f m l)))
        \<and> guard_never_across (trace_of (lock opts pr ks oks env f m l)))
   \<and> list_all bookkeeping (under_lo_mu (trace_of (unlock opts u m l)))
   \<and> (ctl_of (preLock opts pr ks oks skip m l) = Returned \<longrightarrow>
        list_all bookkeeping (under_lo_mu (trace_of (preLock opts pr ks oks skip m l))))
   \<and> under_lo_mu (trace_of (postLock pr skip m l)) = [CurSet m]
   \<and> under_lo_mu (trace_of (postUnlock m l)) = [CurDelete m]
   \<and> ((\<forall>c. snd (watchdog opts wpr m n rs) \<noteq> Exited c) \<longrightarrow>
        list_all bookkeeping (under_lo_mu (fst (watchdog opts wpr m n rs))))
   \<and> (ctl_of (preLock opts pr ks oks skip m l) \<noteq> Returned \<longrightarrow>
        PrintStack (callers pr skip) \<in> set (under_lo_mu (trace_of (preLock opts pr ks oks skip m l)))
        \<and> \<not> guard_never_across (trace_of (preLock opts pr ks oks skip m l)))
   \<and> (\<forall>c. snd (watchdog opts wpr m n rs) = Exited c \<longrightarrow>
        GoidGet \<in> set (under_lo_mu (fst (watchdog opts wpr m n rs)))
        \<and> Callers 2 \<in> set (under_lo_mu (fst (watchdog opts wpr m n rs)))
        \<and> PrintStack (callers wpr 2) \<in> set (under_lo_mu (fst (watchdog opts wpr m n rs)))
        \<and> Stacks \<in> set (under_lo_mu (fst (watchdog opts wpr m n rs)))
        \<and> \<not> guard_never_across (fst (watchdog opts wpr m n rs)))"
proof -
  have 1: "list_all (\<lambda>a. \<not> blocking_acquire a) (under_lo_mu (trace_of (lock opts pr ks oks env f m l)))"
  proof (cases "ctl_of (lock opts pr ks oks env f m l) = Returned")
    case True
    from lock_Returned_under [OF True] show ?thesis
      unfolding list_all_iff using bookkeeping_harmless by blast
  next
    case False
    from lock_exit_under [OF False] show ?thesis .
  qed
  have 2: "list_all bookkeeping (under_lo_mu (trace_of (lock opts pr ks oks env f m l)))
        \<and> guard_never_across (trace_of (lock opts pr ks oks env f m l))"
    if "ctl_of (lock opts pr ks oks env f m l) = Returned"
    using lock_Returned_under [OF that] bookkeeping_guard by blast
  have 3: "list_all bookkeeping (under_lo_mu (trace_of (preLock opts pr ks oks skip m l)))"
    if "ctl_of (preLock opts pr ks oks skip m l) = Returned"
    using preLock_Returned [OF that] by simp
  show ?thesis
    using 1 2 3 under_lo_mu_unlock [of opts u m l] under_lo_mu_postLock [of pr skip m l]
      under_lo_mu_postUnlock [of m l] watchdog_quiet_under [of opts wpr m n rs]
      preLock_exit_across [of opts pr ks oks skip m l] watchdog_exit_across [of opts wpr m n rs]
      preLock_exit_rendering [of opts pr ks oks skip m l] watchdog_exit_provider [of opts wpr m n rs]
    by blast
qed

text \<open>Paths without and with a detection, at concrete inputs.\<close>

theorem guard_discipline_witness:
  "ctl_of (lock defaultOpts goroutine2 [lockA] [lockA] id Mutex_mu_Lock lockA heldA) = Returned
   \<and> guard_never_across (trace_of (lock defaultOpts goroutine2 [lockA] [lockA] id Mutex_mu_Lock lockA heldA))
   \<and> ctl_of (preLock defaultOpts goroutine2 [lockA] [lockA] 4 lockA heldA) = Returned
   \<and> list_all bookkeeping (under_lo_mu (trace_of (preLock defaultOpts goroutine2 [lockA] [lockA] 4 lockA heldA)))
   \<and> (\<forall>c. snd (watchdog defaultOpts goroutine2 lockA 0 [Chan :: nat selected]) \<noteq> Exited c)
   \<and> list_all bookkeeping (under_lo_mu (fst (watchdog defaultOpts goroutine2 lockA 0 [Chan])))
   \<and> ctl_of (preLock defaultOpts goroutine1 [lockA] [lockA] 4 lockA heldA) \<noteq> Returned
   \<and> \<not> guard_never_across (trace_of (preLock defaultOpts goroutine1 [lockA] [lockA] 4 lockA heldA))
   \<and> snd (watchdog defaultOpts goroutine2 lockA 0 [Timer heldA [lockA] []]) = Exited ExitedInCallback
   \<and> \<not> guard_never_across (fst (watchdog defaultOpts goroutine2 lockA 0 [Timer heldA [lockA] []]))"
proof -
  have e1: "ctl_of (lock defaultOpts goroutine2 [lockA] [lockA] id Mutex_mu_Lock lockA heldA) = Returned"
    by (simp add: ex_defs)
  have e2: "ctl_of (preLock defaultOpts goroutine2 [lockA] [lockA] 4 lockA heldA) = Returned"
    by (simp add: ex_defs)
  have e3: "\<forall>c. snd (watchdog defaultOpts goroutine2 lockA 0 [Chan :: nat selected]) \<noteq> Exited c"
    by simp
  have e4: "ctl_of (preLock defaultOpts goroutine1 [lockA] [lockA] 4 lockA heldA) \<noteq> Returned"
    by (simp add: ex_defs)
  have e5: "snd (watchdog defaultOpts goroutine2 lockA 0 [Timer heldA [lockA] []]) = Exited ExitedInCallback"
    by (simp add: ex_defs)
  note T1 = guard_discipline [where opts = defaultOpts and pr = goroutine2 and ks = "[lockA]" and oks = "[lockA]"
      and env = id and f = Mutex_mu_Lock and m = lockA and l = heldA and skip = 4 and wpr = goroutine2
      and n = 0 and rs = "[Chan]"]
  note T2 = guard_discipline [where opts = defaultOpts and pr = goroutine1 and ks = "[lockA]" and oks = "[lockA]"
      and env = id and f = Mutex_mu_Lock and m = lockA and l = heldA and skip = 4 and wpr = goroutine2
      and n = 0 and rs = "[Timer heldA [lockA] []]"]
  from T1 e1 have c1: "guard_never_across (trace_of (lock defaultOpts goroutine2 [lockA] [lockA] id Mutex_mu_Lock lockA heldA))"
    by blast
  from T1 e2 have c2: "list_all bookkeeping (under_lo_mu (trace_of (preLock defaultOpts goroutine2 [lockA] [lockA] 4 lockA heldA)))"
    by blast
  from T1 e3 have c3: "list_all bookkeeping (under_lo_mu (fst (watchdog defaultOpts goroutine2 lockA 0 [Chan])))"
    by blast
  from T2 e4 have c4: "\<not> guard_never_across (trace_of (preLock defaultOpts goroutine1 [lockA] [lockA] 4 lockA heldA))"
    by blast
  from T2 e5 have c5: "\<not> guard_never_across (fst (watchdog defaultOpts goroutine2 lockA 0 [Timer heldA [lockA] []]))"
    by blast
  from e1 c1 e2 c2 e3 c3 e4 c4 e5 c5 show ?thesis by blast
qed

section \<open>The bound on the order table\<close>

text \<open>
  C8. With \<open>MaxMapSize\<close> at least 1, after every run of guarded sections from the
  initial state, that is whenever \<open>lo.mu\<close> is free, the order table holds strictly
  fewer than \<open>MaxMapSize\<close> entries. Recording an edge resets the table exactly when
  the insertion makes its length equal to \<open>MaxMapSize\<close>, and the reset leaves the
  table empty: the entry that triggered it is discarded with the rest.
\<close>

theorem order_table_below_MaxMapSize:
  "(1 \<le> MaxMapSize opts \<and> run opts ss newLockOrder = Some l \<longrightarrow> len (order l) < MaxMapSize opts)
   \<and> (order (recordEdge opts b p bs stk l') = fmempty
        \<longleftrightarrow> len (fmupd (BeforeAfter b p) \<lparr>before = stack bs, after = stk\<rparr> (order l')) = MaxMapSize opts)
   \<and> (len (fmupd (BeforeAfter b p) \<lparr>before = stack bs, after = stk\<rparr> (order l')) \<noteq> MaxMapSize opts \<longrightarrow>
        order (recordEdge opts b p bs stk l') = fmupd (BeforeAfter b p) \<lparr>before = stack bs, after = stk\<rparr> (order l'))
   \<and> (OrderReset \<in> set (recordEdgeTrace opts b p bs stk l')
        \<longleftrightarrow> len (fmupd (BeforeAfter b p) \<lparr>before = stack bs, after = stk\<rparr> (order l')) = MaxMapSize opts)"
proof -
  have 1: "len (order l) < MaxMapSize opts" if "1 \<le> MaxMapSize opts" "run opts ss newLockOrder = Some l"
    using run_bound [OF that(2)] that(1) by (simp add: newLockOrder_def)
  have ne: "fmupd k v m \<noteq> fmempty" for k :: "'c beforeAfter" and v :: ss and m
    using len_fmupd_pos [of k v m] by auto
  have 2: "order (recordEdge opts b p bs stk l') = fmempty
           \<longleftrightarrow> len (fmupd (BeforeAfter b p) \<lparr>before = stack bs, after = stk\<rparr> (order l')) = MaxMapSize opts"
    using ne by (simp add: recordEdge_order)
  have 3: "order (recordEdge opts b p bs stk l') = fmupd (BeforeAfter b p) \<lparr>before = stack bs, after = stk\<rparr> (order l')"
    if "len (fmupd (BeforeAfter b p) \<lparr>before = stack bs, after = stk\<rparr> (order l')) \<noteq> MaxMapSize opts"
    using that by (simp add: recordEdge_order)
  have 4: "OrderReset \<in> set (recordEdgeTrace opts b p bs stk l')
        \<longleftrightarrow> len (fmupd (BeforeAfter b p) \<lparr>before = stack bs, after = stk\<rparr> (order l')) = MaxMapSize opts"
    by (simp add: recordEdgeTrace_def)
  from 1 2 3 4 show ?thesis by blast
qed

text \<open>The scenario with a table of two entries: one edge is kept, the second resets the table.\<close>

theorem order_table_below_MaxMapSize_witness:
  "1 \<le> MaxMapSize twoOpts \<and> run twoOpts firstAB newLockOrder = Some afterAB
   \<and> len (order afterAB) < MaxMapSize twoOpts
   \<and> len (fmupd (BeforeAfter lockA lockC) \<lparr>before = stack \<lparr>stack = [1], gid = 1\<rparr>, after = [1]\<rparr> (order afterAB))
       = MaxMapSize twoOpts
   \<and> order (recordEdge twoOpts lockA lockC \<lparr>stack = [1], gid = 1\<rparr> [1] afterAB) = fmempty
   \<and> len (fmupd (BeforeAfter lockA lockB) \<lparr>before = stack \<lparr>stack = [1], gid = 1\<rparr>, after = [1]\<rparr> (order newLockOrder))
       \<noteq> MaxMapSize twoOpts
   \<and> order (recordEdge twoOpts lockA lockB \<lparr>stack = [1], gid = 1\<rparr> [1] newLockOrder)
       = fmupd (BeforeAfter lockA lockB) \<lparr>before = [1], after = [1]\<rparr> fmempty"
proof -
  have e1: "1 \<le> MaxMapSize twoOpts \<and> run twoOpts firstAB newLockOrder = Some afterAB"
    using run_firstAB by (simp add: twoOpts_def)
  have e2: "len (fmupd (BeforeAfter lockA lockC) \<lparr>before = stack \<lparr>stack = [1], gid = 1\<rparr>, after = [1]\<rparr> (order afterAB))
       = MaxMapSize twoOpts"
    by (simp add: afterAB_def twoOpts_def len_fmupd lockB_def lockC_def)
  have e3: "len (fmupd (BeforeAfter lockA lockB) \<lparr>before = stack \<lparr>stack = [1], gid = 1\<rparr>, after = [1]\<rparr> (order newLockOrder))
       \<noteq> MaxMapSize twoOpts"
    by (simp add: newLockOrder_def twoOpts_def len_fmupd)
  note T1 = order_table_below_MaxMapSize [where opts = twoOpts and ss = firstAB and l = afterAB
      and b = lockA and p = lockC and bs = "\<lparr>stack = [1], gid = 1\<rparr>" and stk = "[1]" and l' = afterAB]
  note T2 = order_table_below_MaxMapSize [where opts = twoOpts and ss = firstAB and l = afterAB
      and b = lockA and p = lockB and bs = "\<lparr>stack = [1], gid = 1\<rparr>" and stk = "[1]" and l' = newLockOrder]
  from T1 e1 have c1: "len (order afterAB) < MaxMapSize twoOpts" by blast
  from T1 e2 have c2: "order (recordEdge twoOpts lockA lockC \<lparr>stack = [1], gid = 1\<rparr> [1] afterAB) = fmempty"
    by blast
  from T2 e3 have "order (recordEdge twoOpts lockA lockB \<lparr>stack = [1], gid = 1\<rparr> [1] newLockOrder)
       = fmupd (BeforeAfter lockA lockB) \<lparr>before = stack \<lparr>stack = [1], gid = 1\<rparr>, after = [1]\<rparr> (order newLockOrder)"
    by blast
  then have c3: "order (recordEdge twoOpts lockA lockB \<lparr>stack = [1], gid = 1\<rparr> [1] newLockOrder)
       = fmupd (BeforeAfter lockA lockB) \<lparr>before = [1], after = [1]\<rparr> fmempty"
    by (simp add: newLockOrder_def)
  from e1 c1 e2 c2 e3 c3 show ?thesis by blast
qed

section \<open>Several readers of one RWMutex\<close>

text \<open>
  C9. The held-map has one record per lock handle: \<open>postLock\<close> overwrites it, so
  after a second reader's \<open>RLock\<close> the record is the second reader's, and
  \<open>postUnlock\<close> deletes it, so after the first \<open>RUnlock\<close> the handle has no
  record, whoever still holds the lock. For a handle with no record, the watchdog's
  re-check finds no holder and only re-arms the timer, and \<open>preLock\<close> records no
  edge from that handle.
\<close>

theorem one_record_per_handle:
  "fmlookup (cur (state_of (postLock prb skip m (state_of (postLock pra skip m l))))) m
      = Some \<lparr>stack = callers prb skip, gid = goid_Get prb\<rparr>
   \<and> fmlookup (cur (state_of (postUnlock m l))) m = None
   \<and> (\<not> Disable opts \<and> ctl_of (RWMutex_RLock opts prb ks oks env m l) = Returned \<longrightarrow>
        fmlookup (cur (state_of (RWMutex_RLock opts prb ks oks env m l))) m
          = Some \<lparr>stack = callers prb 4, gid = goid_Get prb\<rparr>)
   \<and> (\<not> Disable opts \<longrightarrow> fmlookup (cur (state_of (RWMutex_RUnlock opts m l))) m = None)
   \<and> (fmlookup (cur l) m = None \<longrightarrow>
        watchdog opts wpr m n (Timer l oks' grs # rs)
          = (rearm opts m @ fst (watchdog opts wpr m (Suc n) rs), snd (watchdog opts wpr m (Suc n) rs))
        \<and> (\<forall>p. OrderSet (BeforeAfter m p) \<notin> set (trace_of (preLock opts prb ks oks skip p l))))"
proof -
  have 1: "fmlookup (cur (state_of (postLock prb skip m (state_of (postLock pra skip m l))))) m
      = Some \<lparr>stack = callers prb skip, gid = goid_Get prb\<rparr>"
    by (simp add: postLock_def)
  have 2: "fmlookup (cur (state_of (postUnlock m l))) m = None"
    by (simp add: postUnlock_def)
  have 3: "fmlookup (cur (state_of (RWMutex_RLock opts prb ks oks env m l))) m
          = Some \<lparr>stack = callers prb 4, gid = goid_Get prb\<rparr>"
    if "\<not> Disable opts" "ctl_of (RWMutex_RLock opts prb ks oks env m l) = Returned"
    using that lock_Returned_cur [of opts prb ks oks env RWMutex_mu_RLock m l]
    by (simp add: RWMutex_RLock_def)
  have 4: "fmlookup (cur (state_of (RWMutex_RUnlock opts m l))) m = None" if "\<not> Disable opts"
    using that unlock_cur [of opts RWMutex_mu_RUnlock m l] by (simp add: RWMutex_RUnlock_def)
  have 5: "watchdog opts wpr m n (Timer l oks' grs # rs)
          = (rearm opts m @ fst (watchdog opts wpr m (Suc n) rs), snd (watchdog opts wpr m (Suc n) rs))"
    if "fmlookup (cur l) m = None"
    using that by (simp add: rearm_def split: prod.splits)
  have 6: "\<forall>p. OrderSet (BeforeAfter m p) \<notin> set (trace_of (preLock opts prb ks oks skip p l))"
    if "fmlookup (cur l) m = None"
    by (simp add: preLock_no_edge_from_absent that)
  from 1 2 3 4 5 6 show ?thesis by blast
qed

text \<open>Goroutine 1 holds A for reading; goroutine 2 locks it for reading too; one of them unlocks.\<close>

theorem one_record_per_handle_witness:
  "\<not> Disable defaultOpts
   \<and> ctl_of (RWMutex_RLock defaultOpts goroutine2 [lockA] [lockA] id lockA heldA) = Returned
   \<and> state_of (RWMutex_RLock defaultOpts goroutine2 [lockA] [lockA] id lockA heldA) = readA
   \<and> fmlookup (cur readA) lockA = Some \<lparr>stack = [2], gid = 2\<rparr>
   \<and> state_of (RWMutex_RUnlock defaultOpts lockA readA) = releasedA
   \<and> fmlookup (cur releasedA) lockA = None
   \<and> watchdog defaultOpts goroutine1 lockA 0 [Timer releasedA [] [], Chan]
       = (rearm defaultOpts lockA @ fst (watchdog defaultOpts goroutine1 lockA (Suc 0) [Chan]),
          snd (watchdog defaultOpts goroutine1 lockA (Suc 0) [Chan]))
   \<and> (\<forall>p. OrderSet (BeforeAfter lockA p) \<notin> set (trace_of (preLock defaultOpts goroutine2 [] [] 4 p releasedA)))"
proof -
  have e1: "\<not> Disable defaultOpts \<and> ctl_of (RWMutex_RLock defaultOpts goroutine2 [lockA] [lockA] id lockA heldA) = Returned"
    by (simp add: RWMutex_RLock_def ex_defs)
  have e2: "state_of (RWMutex_RLock defaultOpts goroutine2 [lockA] [lockA] id lockA heldA) = readA"
    by (simp add: RWMutex_RLock_def ex_defs readA_def)
  have e3: "state_of (RWMutex_RUnlock defaultOpts lockA readA) = releasedA"
    by (simp add: RWMutex_RUnlock_def unlock_def postUnlock_def prefixed_def defaultOpts_def readA_def releasedA_def)
       (rule fmap_ext, simp)
  have e4: "fmlookup (cur releasedA) lockA = None"
    by (simp add: releasedA_def)
  note T1 = one_record_per_handle [where opts = defaultOpts and prb = goroutine2 and ks = "[lockA]" and oks = "[lockA]"
      and env = id and m = lockA and l = heldA]
  note T2 = one_record_per_handle [where opts = defaultOpts and prb = goroutine2 and ks = "[]" and oks = "[]"
      and m = lockA and l = releasedA and wpr = goroutine1 and n = 0 and oks' = "[]" and grs = "[]" and rs = "[Chan]"
      and skip = 4]
  from T1 e1 e2 have c1: "fmlookup (cur readA) lockA = Some \<lparr>stack = [2], gid = 2\<rparr>"
    by (simp add: goroutine2_def)
  from T2 e4 have c2: "watchdog defaultOpts goroutine1 lockA 0 [Timer releasedA [] [], Chan]
       = (rearm defaultOpts lockA @ fst (watchdog defaultOpts goroutine1 lockA (Suc 0) [Chan]),
          snd (watchdog defaultOpts goroutine1 lockA (Suc 0) [Chan]))"
    by blast
  from T2 e4 have c3: "\<forall>p. OrderSet (BeforeAfter lockA p) \<notin> set (trace_of (preLock defaultOpts goroutine2 [] [] 4 p releasedA))"
    by blast
  from e1 e2 c1 e3 e4 c2 c3 show ?thesis by blast
qed

section \<open>Which mutexes are held when the callback runs\<close>



end
